theory Spec2Isabelle
  imports Main "HOL-Library.AList" "HOL-Library.Word"
begin

section \<open>Strings\<close>

text \<open>
  A Go string is modelled as the list of its characters (\<^typ>\<open>string\<close>); one
  \<^typ>\<open>char\<close> stands for one rune.
\<close>

definition newline :: char where
  "newline = CHR 0x0A"

definition backslash :: char where
  "backslash = CHR 0x5C"

text \<open>
  Lower-casing of the ASCII letters: A-Z are folded, every other character is kept.
  This is the folding of \<^verbatim>\<open>dns.CanonicalName\<close>, and it is what \<^verbatim>\<open>strings.ToLower\<close>
  does to a string of ASCII characters.  \<^verbatim>\<open>strings.ToLower\<close> itself folds every
  Unicode capital; where the program calls it, the model takes it as a parameter.
\<close>

definition toLowerRune :: "char \<Rightarrow> char" where
  "toLowerRune c =
     (let n = (of_char c :: nat) in if 65 \<le> n \<and> n \<le> 90 then char_of (n + 32) else c)"

definition asciiToLower :: "string \<Rightarrow> string" where
  "asciiToLower s = map toLowerRune s"

text \<open>\<^verbatim>\<open>strings.HasPrefix\<close>, \<^verbatim>\<open>strings.HasSuffix\<close> and
  \<^verbatim>\<open>strings.TrimSuffix\<close>.\<close>

definition HasPrefix :: "string \<Rightarrow> string \<Rightarrow> bool" where
  "HasPrefix s p = (length p \<le> length s \<and> take (length p) s = p)"

definition HasSuffix :: "string \<Rightarrow> string \<Rightarrow> bool" where
  "HasSuffix s suf = (length suf \<le> length s \<and> drop (length s - length suf) s = suf)"

definition TrimSuffix :: "string \<Rightarrow> string \<Rightarrow> string" where
  "TrimSuffix s suf = (if HasSuffix s suf then take (length s - length suf) s else s)"

section \<open>Glob compiler (package bypass, compileGlobToRegex)\<close>

text \<open>
  One iteration of the loop of \<^verbatim>\<open>compileGlobToRegex\<close>: the text written to the
  builder for the pattern rune \<open>c\<close>.
\<close>

definition escapedRunes :: "char list" where
  "escapedRunes = ''[](){}^$+|'' @ [backslash]"

definition writeGlobRune :: "char \<Rightarrow> string" where
  "writeGlobRune c =
     (if c = CHR ''*'' then ''.*''
      else if c = CHR ''?'' then ''.''
      else if c = CHR ''.'' then [backslash, CHR ''.'']
      else if c \<in> set escapedRunes then [backslash, c]
      else [c])"

fun writeGlobRunes :: "string \<Rightarrow> string" where
  "writeGlobRunes [] = []"
| "writeGlobRunes (c # cs) = writeGlobRune c @ writeGlobRunes cs"

text \<open>The regular-expression source that \<^verbatim>\<open>compileGlobToRegex\<close> hands to
  \<^verbatim>\<open>regexp.Compile\<close>.\<close>

definition globRegexSource :: "string \<Rightarrow> string" where
  "globRegexSource pattern = ''^'' @ writeGlobRunes pattern @ ''$''"

subsection \<open>Go's regexp package on the fragment the compiler emits\<close>

text \<open>
  The glob compiler emits only: the anchors \<^verbatim>\<open>^\<close> and \<^verbatim>\<open>$\<close>, the dot (any
  character but newline, since no \<^verbatim>\<open>s\<close> flag is set), the dot followed by a star, an
  escaped punctuation character, and plain characters.  Without the \<^verbatim>\<open>m\<close> flag the
  anchors are begin of text and end of text.  The parser below accepts exactly this
  fragment; \<open>None\<close> stands for an expression outside of it.
\<close>

datatype re_node = BeginText | EndText | AnyCharNotNL | StarAnyCharNotNL | Literal char

definition reOperators :: "char list" where
  "reOperators = ''*+?()|[]{}''"

fun prepend :: "re_node \<Rightarrow> re_node list option \<Rightarrow> re_node list option" where
  "prepend n None = None"
| "prepend n (Some ns) = Some (n # ns)"

fun regexp_parse :: "string \<Rightarrow> re_node list option" where
  "regexp_parse [] = Some []"
| "regexp_parse [c] =
     (if c = CHR ''^'' then Some [BeginText]
      else if c = CHR ''$'' then Some [EndText]
      else if c = CHR ''.'' then Some [AnyCharNotNL]
      else if c = backslash \<or> c \<in> set reOperators then None
      else Some [Literal c])"
| "regexp_parse (c # d # cs) =
     (if c = CHR ''^'' then prepend BeginText (regexp_parse (d # cs))
      else if c = CHR ''$'' then prepend EndText (regexp_parse (d # cs))
      else if c = CHR ''.'' then
        (if d = CHR ''*'' then prepend StarAnyCharNotNL (regexp_parse cs)
         else prepend AnyCharNotNL (regexp_parse (d # cs)))
      else if c = backslash then
        (if d = CHR ''.'' \<or> d \<in> set escapedRunes then prepend (Literal d) (regexp_parse cs)
         else None)
      else if c \<in> set reOperators then None
      else prepend (Literal c) (regexp_parse (d # cs)))"

text \<open>
  Matching a sequence of nodes at one position of the input: \<open>pos\<close> is the number of
  characters before the position, \<open>s\<close> the rest of the input from there.
\<close>

fun matchHere :: "re_node list \<Rightarrow> nat \<Rightarrow> string \<Rightarrow> bool" where
  "matchHere [] pos s = True"
| "matchHere (BeginText # ns) pos s = (pos = 0 \<and> matchHere ns pos s)"
| "matchHere (EndText # ns) pos s = (s = [] \<and> matchHere ns pos s)"
| "matchHere (AnyCharNotNL # ns) pos [] = False"
| "matchHere (AnyCharNotNL # ns) pos (c # cs) = (c \<noteq> newline \<and> matchHere ns (Suc pos) cs)"
| "matchHere (Literal a # ns) pos [] = False"
| "matchHere (Literal a # ns) pos (c # cs) = (c = a \<and> matchHere ns (Suc pos) cs)"
| "matchHere (StarAnyCharNotNL # ns) pos [] = matchHere ns pos []"
| "matchHere (StarAnyCharNotNL # ns) pos (c # cs) =
     (matchHere ns pos (c # cs) \<or>
      (c \<noteq> newline \<and> matchHere (StarAnyCharNotNL # ns) (Suc pos) cs))"

text \<open>
  A compiled expression (\<^verbatim>\<open>*regexp.Regexp\<close>): its source text, which
  \<^verbatim>\<open>String()\<close> returns, and the parsed program.
\<close>

record Regexp =
  expr :: string
  prog :: "re_node list"

text \<open>\<^verbatim>\<open>(*Regexp).MatchString\<close>: the expression matches somewhere in the input.\<close>

definition MatchString :: "Regexp \<Rightarrow> string \<Rightarrow> bool" where
  "MatchString re s = list_ex (\<lambda>i. matchHere (prog re) i (drop i s)) [0..<Suc (length s)]"

datatype compile_error = InvalidPattern string

definition regexp_Compile :: "string \<Rightarrow> compile_error + Regexp" where
  "regexp_Compile src =
     (case regexp_parse src of
        None \<Rightarrow> Inl (InvalidPattern src)
      | Some ns \<Rightarrow> Inr \<lparr>expr = src, prog = ns\<rparr>)"

definition compileGlobToRegex :: "string \<Rightarrow> compile_error + Regexp" where
  "compileGlobToRegex pattern = regexp_Compile (globRegexSource pattern)"

text \<open>The use made of the compiler in \<^verbatim>\<open>TestCompileGlobToRegex\<close>: compile, then
  \<^verbatim>\<open>MatchString\<close>.\<close>

definition globMatches :: "string \<Rightarrow> string \<Rightarrow> bool" where
  "globMatches pattern input =
     (case compileGlobToRegex pattern of Inl e \<Rightarrow> False | Inr re \<Rightarrow> MatchString re input)"

section \<open>Classification engine (package bypass)\<close>

text \<open>
  \<^verbatim>\<open>RuleType\<close> and \<^verbatim>\<open>Action\<close> are string types in the source; a rule read from
  the configuration may carry any string.
\<close>

type_synonym RuleType = string
type_synonym Action = string

definition RuleTypeDomain :: RuleType where "RuleTypeDomain = ''domain''"
definition RuleTypeCIDR :: RuleType where "RuleTypeCIDR = ''cidr''"
definition ActionBypass :: Action where "ActionBypass = ''bypass''"
definition ActionBlock :: Action where "ActionBlock = ''block''"
definition ActionTor :: Action where "ActionTor = ''tor''"

type_synonym byte = "8 word"
type_synonym IP = "byte list"

record IPNet =
  NetIP :: IP
  Mask :: IP

text \<open>The \<^verbatim>\<open>compiled interface{}\<close> slot of a rule: nil, a compiled expression or an
  address block.  The fields \<^verbatim>\<open>Rule\<close> and \<^verbatim>\<open>Action\<close> of a match result are
  \<open>MatchedRule\<close> and \<open>MatchedAction\<close> here.\<close>

datatype compiled_matcher = NoMatcher | CompiledRegexp Regexp | CompiledIPNet IPNet

record Rule =
  Name :: string
  Type :: RuleType
  Pattern :: string
  Action :: Action
  Description :: string
  compiled :: compiled_matcher

record MatchResult =
  Matched :: bool
  MatchedRule :: "Rule option"
  MatchedAction :: Action
  Reason :: string

text \<open>\<^verbatim>\<open>MatchResult{Matched: false}\<close>: the other fields keep their zero values.\<close>

definition noMatch :: MatchResult where
  "noMatch = \<lparr>Matched = False, MatchedRule = None, MatchedAction = [], Reason = []\<rparr>"

text \<open>The fields of \<^verbatim>\<open>config.BypassConfig\<close> that domain matching reads.\<close>

record BypassConfig =
  Enabled :: bool
  Domains :: "string list"

text \<open>The fields of \<^verbatim>\<open>Engine\<close> that \<^verbatim>\<open>MatchDomain\<close> reads.\<close>

record Engine =
  cfg :: BypassConfig
  domainPatterns :: "Regexp list"
  customRules :: "Rule list"

text \<open>The first loop of \<^verbatim>\<open>compileRules\<close>: a pattern that does not compile is logged
  and skipped.\<close>

fun compileDomainPatterns :: "string list \<Rightarrow> Regexp list" where
  "compileDomainPatterns [] = []"
| "compileDomainPatterns (pattern # rest) =
     (case compileGlobToRegex pattern of
        Inl err \<Rightarrow> compileDomainPatterns rest
      | Inr re \<Rightarrow> re # compileDomainPatterns rest)"

text \<open>\<^verbatim>\<open>compileRule\<close>; \<^verbatim>\<open>net.ParseCIDR\<close> is a parameter.\<close>

definition compileRule :: "(string \<Rightarrow> IPNet option) \<Rightarrow> Rule \<Rightarrow> compile_error + Rule" where
  "compileRule ParseCIDR r =
     (if Type r = RuleTypeDomain then
        (case compileGlobToRegex (Pattern r) of
           Inl err \<Rightarrow> Inl err
         | Inr re \<Rightarrow> Inr (r\<lparr>compiled := CompiledRegexp re\<rparr>))
      else if Type r = RuleTypeCIDR then
        (case ParseCIDR (Pattern r) of
           None \<Rightarrow> Inl (InvalidPattern (Pattern r))
         | Some ipNet \<Rightarrow> Inr (r\<lparr>compiled := CompiledIPNet ipNet\<rparr>))
      else Inr r)"

definition AddRule :: "(string \<Rightarrow> IPNet option) \<Rightarrow> Engine \<Rightarrow> Rule \<Rightarrow> compile_error + Engine" where
  "AddRule ParseCIDR e rule =
     (case compileRule ParseCIDR rule of
        Inl err \<Rightarrow> Inl err
      | Inr rule' \<Rightarrow> Inr (e\<lparr>customRules := customRules e @ [rule']\<rparr>))"

text \<open>
  The two loops of \<^verbatim>\<open>MatchDomain\<close>; each returns at its first match.  The first
  argument of \<open>MatchDomain\<close> stands for the library function \<^verbatim>\<open>strings.ToLower\<close>.
\<close>

fun matchDomainPatterns :: "Regexp list \<Rightarrow> string \<Rightarrow> MatchResult option" where
  "matchDomainPatterns [] domain = None"
| "matchDomainPatterns (re # rest) domain =
     (if MatchString re domain then
        Some \<lparr>Matched = True, MatchedRule = None, MatchedAction = ActionBypass,
              Reason = ''matches pattern '' @ expr re\<rparr>
      else matchDomainPatterns rest domain)"

fun matchCustomRules :: "Rule list \<Rightarrow> string \<Rightarrow> MatchResult option" where
  "matchCustomRules [] domain = None"
| "matchCustomRules (rule # rest) domain =
     (if Type rule = RuleTypeDomain then
        (case compiled rule of
           CompiledRegexp re \<Rightarrow>
             (if MatchString re domain then
                Some \<lparr>Matched = True, MatchedRule = Some rule, MatchedAction = Action rule,
                      Reason = Description rule\<rparr>
              else matchCustomRules rest domain)
         | _ \<Rightarrow> matchCustomRules rest domain)
      else matchCustomRules rest domain)"

definition MatchDomain :: "(string \<Rightarrow> string) \<Rightarrow> Engine \<Rightarrow> string \<Rightarrow> MatchResult" where
  "MatchDomain ToLower e domain =
     (if \<not> Enabled (cfg e) then noMatch
      else
        (let domain = ToLower domain in
         case matchDomainPatterns (domainPatterns e) domain of
           Some result \<Rightarrow> result
         | None \<Rightarrow>
             (case matchCustomRules (customRules e) domain of
                Some result \<Rightarrow> result
              | None \<Rightarrow> noMatch)))"

section \<open>The resolver's own matcher (package netfilter, dns.go)\<close>

definition matchDomain :: "string \<Rightarrow> string \<Rightarrow> bool" where
  "matchDomain pattern domain =
     (if HasPrefix pattern ''*.'' then
        (let suffix = drop 1 pattern
         in HasSuffix domain suffix \<or> domain = drop 2 pattern)
      else pattern = domain)"

section \<open>DNS messages (library github.com/miekg/dns)\<close>

text \<open>
  The part of \<^verbatim>\<open>dns.Msg\<close> that the handlers read and write.  Record types, classes
  and response codes are the protocol's numbers.  The field \<^verbatim>\<open>Question\<close> of a message
  is \<open>Questions\<close> here, and the fields \<^verbatim>\<open>Name\<close> of a question and of a record header
  are \<open>QName\<close> and \<open>HdrName\<close>.
\<close>

definition TypeA :: nat where "TypeA = 1"
definition TypePTR :: nat where "TypePTR = 12"
definition TypeAAAA :: nat where "TypeAAAA = 28"
definition ClassINET :: nat where "ClassINET = 1"
definition OpcodeQuery :: nat where "OpcodeQuery = 0"
definition RcodeSuccess :: nat where "RcodeSuccess = 0"
definition RcodeServerFailure :: nat where "RcodeServerFailure = 2"
definition RcodeNameError :: nat where "RcodeNameError = 3"

record Question =
  QName :: string
  Qtype :: nat
  Qclass :: nat

record RR_Header =
  HdrName :: string
  Rrtype :: nat
  Class :: nat
  Ttl :: nat

datatype RR = A_record RR_Header IP | PTR_record RR_Header string

record Msg =
  Id :: nat
  Response :: bool
  Opcode :: nat
  Authoritative :: bool
  RecursionDesired :: bool
  CheckingDisabled :: bool
  Rcode :: nat
  Questions :: "Question list"
  Answer :: "RR list"

text \<open>\<^verbatim>\<open>new(dns.Msg)\<close>: every field has its zero value.\<close>

definition newMsg :: Msg where
  "newMsg = \<lparr>Id = 0, Response = False, Opcode = 0, Authoritative = False,
             RecursionDesired = False, CheckingDisabled = False, Rcode = 0,
             Questions = [], Answer = []\<rparr>"

text \<open>
  \<^verbatim>\<open>(*Msg).SetReply\<close>: the reply copies the identifier, the opcode and (for a query)
  the recursion and checking bits, has response code success, and repeats the first
  question when there is one.  \<^verbatim>\<open>(*Msg).SetRcode\<close> is \<^verbatim>\<open>SetReply\<close> followed by the
  given response code, and \<^verbatim>\<open>dns.HandleFailed\<close> writes the server-failure reply.
\<close>

definition SetReply :: "Msg \<Rightarrow> Msg \<Rightarrow> Msg" where
  "SetReply m request =
     (let m1 = m\<lparr>Id := Id request, Response := True, Opcode := Opcode request\<rparr>;
          m2 = (if Opcode m1 = OpcodeQuery
                then m1\<lparr>RecursionDesired := RecursionDesired request,
                        CheckingDisabled := CheckingDisabled request\<rparr>
                else m1);
          m3 = m2\<lparr>Rcode := RcodeSuccess\<rparr>
      in (case Questions request of [] \<Rightarrow> m3 | q # qs \<Rightarrow> m3\<lparr>Questions := [q]\<rparr>))"

definition SetRcode :: "Msg \<Rightarrow> Msg \<Rightarrow> nat \<Rightarrow> Msg" where
  "SetRcode m request rcode = (SetReply m request)\<lparr>Rcode := rcode\<rparr>"

text \<open>
  \<^verbatim>\<open>dns.IsFqdn\<close>: a name is fully qualified when it ends in a dot that is not
  escaped; the last dot is escaped when an odd number of backslashes stands right
  before it.  \<^verbatim>\<open>dns.Fqdn\<close> appends a dot to a name that is not fully qualified, and
  \<^verbatim>\<open>dns.CanonicalName\<close> is the fully qualified name with the letters A-Z in lower
  case.  This is the library on names of ASCII characters.  Where the program calls
  \<^verbatim>\<open>dns.CanonicalName\<close> the model takes the function as a parameter, so that the
  theorems on the allocator hold for every canonicalisation; \<open>CanonicalName\<close> below is
  the instance used on concrete names.
\<close>

definition IsFqdn :: "string \<Rightarrow> bool" where
  "IsFqdn s =
     (s \<noteq> [] \<and> last s = CHR ''.''
      \<and> even (length (takeWhile (\<lambda>c. c = backslash) (rev (butlast s)))))"

definition Fqdn :: "string \<Rightarrow> string" where
  "Fqdn s = (if IsFqdn s then s else s @ ''.'')"

definition CanonicalName :: "string \<Rightarrow> string" where
  "CanonicalName s = asciiToLower (Fqdn s)"

section \<open>Number and address formatting (Go standard library)\<close>

definition digit :: "nat \<Rightarrow> char" where
  "digit n = char_of (48 + n)"

text \<open>The decimal text of a number, as \<^verbatim>\<open>%d\<close> and \<^verbatim>\<open>net.IP.String\<close> print it.\<close>

fun itoa :: "nat \<Rightarrow> string" where
  "itoa n = (if n < 10 then [digit n] else itoa (n div 10) @ [digit (n mod 10)])"

declare itoa.simps [simp del]

definition hexDigit :: "nat \<Rightarrow> char" where
  "hexDigit n = ''0123456789abcdef'' ! n"

definition hexString :: "IP \<Rightarrow> string" where
  "hexString b = concat (map (\<lambda>tn. [hexDigit (unat tn div 16), hexDigit (unat tn mod 16)]) b)"

text \<open>A list of texts joined by a separator character.\<close>

fun joinSep :: "char \<Rightarrow> string list \<Rightarrow> string" where
  "joinSep c [] = []"
| "joinSep c [t] = t"
| "joinSep c (t # u # ts) = t @ c # joinSep c (u # ts)"

text \<open>
  \<^verbatim>\<open>net.IP.To4\<close>: a four-byte address is returned as it is, a sixteen-byte address
  with the IPv4-in-IPv6 prefix gives its last four bytes, anything else gives \<^verbatim>\<open>nil\<close>
  (here \<open>None\<close>).
\<close>

definition v4InV6Prefix :: IP where
  "v4InV6Prefix = [0, 0, 0, 0, 0, 0, 0, 0, 0, 0, 255, 255]"

definition To4 :: "IP \<Rightarrow> IP option" where
  "To4 ip =
     (if length ip = 4 then Some ip
      else if length ip = 16 \<and> take 12 ip = v4InV6Prefix then Some (drop 12 ip)
      else None)"

text \<open>The dotted-decimal text of an IPv4 address.\<close>

definition dottedDecimal :: "IP \<Rightarrow> string" where
  "dottedDecimal p = joinSep (CHR ''.'') (map (\<lambda>b. itoa (unat b)) p)"

text \<open>
  The text of an IPv6 address.  The sixteen bytes are read as eight 16-bit fields;
  a field is printed in lower-case hexadecimal without leading zeros; the longest run
  of two or more zero fields (the first one among runs of equal length) is replaced
  by \<^verbatim>\<open>::\<close>.  \<open>longestZeroRun\<close> is the search loop of the library: it visits the indices
  0 to 7 with the run found so far, which starts as (255, 255).
\<close>

fun v6u16s :: "IP \<Rightarrow> nat list" where
  "v6u16s (hi # lo # rest) = (unat hi * 256 + unat lo) # v6u16s rest"
| "v6u16s [b] = []"
| "v6u16s [] = []"

definition appendHex :: "nat \<Rightarrow> string" where
  "appendHex x =
     (if 4096 \<le> x then [hexDigit (x div 4096)] else [])
     @ (if 256 \<le> x then [hexDigit (x div 256 mod 16)] else [])
     @ (if 16 \<le> x then [hexDigit (x div 16 mod 16)] else [])
     @ [hexDigit (x mod 16)]"

definition zeroRunLength :: "nat list \<Rightarrow> nat \<Rightarrow> nat" where
  "zeroRunLength fs i = length (takeWhile (\<lambda>x. x = 0) (drop i fs))"

definition longestZeroRun :: "nat list \<Rightarrow> nat \<times> nat" where
  "longestZeroRun fs =
     fold (\<lambda>i (zeroStart, zeroEnd).
             (let l = zeroRunLength fs i
              in if 2 \<le> l \<and> zeroEnd - zeroStart < l then (i, i + l) else (zeroStart, zeroEnd)))
          [0..<8] (255, 255)"

definition string6 :: "nat list \<Rightarrow> string" where
  "string6 fs =
     (let (zeroStart, zeroEnd) = longestZeroRun fs
      in if zeroStart < 8
         then joinSep (CHR '':'') (map appendHex (take zeroStart fs)) @ ''::''
              @ joinSep (CHR '':'') (map appendHex (drop zeroEnd fs))
         else joinSep (CHR '':'') (map appendHex fs))"

text \<open>
  \<^verbatim>\<open>net.IP.String\<close>: the empty address, a slice that has neither four nor sixteen
  bytes, an IPv4 address (in its four-byte or its sixteen-byte form) in dotted
  decimal, and any other sixteen-byte address as IPv6 text.
\<close>

definition IP_String :: "IP \<Rightarrow> string" where
  "IP_String ip =
     (if length ip = 0 then ''<nil>''
      else if length ip \<noteq> 4 \<and> length ip \<noteq> 16 then ''?'' @ hexString ip
      else (case To4 ip of
              Some p4 \<Rightarrow> dottedDecimal p4
            | None \<Rightarrow> string6 (v6u16s ip)))"

text \<open>\<^verbatim>\<open>net.IP.Equal\<close>: an IPv4 address and its sixteen-byte form are the same
  address.\<close>

definition IP_Equal :: "IP \<Rightarrow> IP \<Rightarrow> bool" where
  "IP_Equal ip x =
     (if length ip = length x then ip = x
      else if length ip = 4 \<and> length x = 16 then take 12 x = v4InV6Prefix \<and> ip = drop 12 x
      else if length ip = 16 \<and> length x = 4 then take 12 ip = v4InV6Prefix \<and> drop 12 ip = x
      else False)"

section \<open>Synthetic address allocator (package netfilter, fakedns.go)\<close>

text \<open>
  \<^verbatim>\<open>incrementIP\<close>: the loop runs from the last byte to the first, adds one to the
  byte (a \<^verbatim>\<open>uint8\<close>, so 255 wraps to 0) and stops at the first byte that did not wrap.
  \<open>incrementIP_from n\<close> is the loop with \<open>i = n - 1\<close> as its next index.
\<close>

fun incrementIP_from :: "nat \<Rightarrow> IP \<Rightarrow> IP" where
  "incrementIP_from 0 ip = ip"
| "incrementIP_from (Suc i) ip =
     (let ip' = ip[i := ip ! i + 1]
      in if ip' ! i > 0 then ip' else incrementIP_from i ip')"

definition incrementIP :: "IP \<Rightarrow> IP" where
  "incrementIP ip = incrementIP_from (length ip) ip"

record FakeDNSConfig =
  ListenAddr :: string
  FakeSubnet :: string
  TTL :: nat

text \<open>The two Go maps are association lists; \<^verbatim>\<open>m[k] = v\<close> is \<^const>\<open>AList.update\<close>,
  a lookup is \<^const>\<open>map_of\<close> and \<^verbatim>\<open>len(m)\<close> is the length.\<close>

record FakeDNSServer =
  running :: bool
  listenAddr :: string
  fakeSubnet :: IPNet
  mappings :: "(string \<times> IP) list"
  reverseMaps :: "(string \<times> string) list"
  nextIP :: IP
  ttl :: nat

datatype config_error = InvalidFakeSubnet

text \<open>\<^verbatim>\<open>NewFakeDNSServer\<close>; \<^verbatim>\<open>net.ParseCIDR\<close> is a parameter.\<close>

definition NewFakeDNSServer :: "(string \<Rightarrow> IPNet option) \<Rightarrow> FakeDNSConfig \<Rightarrow> config_error + FakeDNSServer" where
  "NewFakeDNSServer ParseCIDR c =
     (case ParseCIDR (FakeSubnet c) of
        None \<Rightarrow> Inl InvalidFakeSubnet
      | Some subnet \<Rightarrow>
          Inr \<lparr>running = False, listenAddr = ListenAddr c, fakeSubnet = subnet,
               mappings = [], reverseMaps = [], nextIP = incrementIP (NetIP subnet),
               ttl = TTL c\<rparr>)"

text \<open>
  \<^verbatim>\<open>getFakeIP\<close> returns the address and the server state after the call.  Its first
  argument \<open>canon\<close> stands for the library function \<^verbatim>\<open>dns.CanonicalName\<close>.
\<close>

definition getFakeIP :: "(string \<Rightarrow> string) \<Rightarrow> FakeDNSServer \<Rightarrow> string \<Rightarrow> IP \<times> FakeDNSServer" where
  "getFakeIP canon f domain =
     (let domain = canon domain in
      case map_of (mappings f) domain of
        Some ip \<Rightarrow> (ip, f)
      | None \<Rightarrow>
          (let fakeIP = nextIP f
           in (fakeIP,
               f\<lparr>mappings := AList.update domain fakeIP (mappings f),
                 reverseMaps := AList.update (IP_String fakeIP) domain (reverseMaps f),
                 nextIP := incrementIP (nextIP f)\<rparr>)))"

text \<open>A sequence of \<^verbatim>\<open>getFakeIP\<close> calls, one per domain of the list.\<close>

fun getFakeIPs :: "(string \<Rightarrow> string) \<Rightarrow> FakeDNSServer \<Rightarrow> string list \<Rightarrow> FakeDNSServer" where
  "getFakeIPs canon f [] = f"
| "getFakeIPs canon f (d # ds) = getFakeIPs canon (snd (getFakeIP canon f d)) ds"

text \<open>A lookup in a Go map of strings yields the empty string for a missing key.\<close>

definition lookupString :: "(string \<times> string) list \<Rightarrow> string \<Rightarrow> string" where
  "lookupString m k = (case map_of m k of None \<Rightarrow> [] | Some v \<Rightarrow> v)"

definition GetDomainForIP :: "FakeDNSServer \<Rightarrow> IP \<Rightarrow> string" where
  "GetDomainForIP f ip = lookupString (reverseMaps f) (IP_String ip)"

definition GetMappingCount :: "FakeDNSServer \<Rightarrow> nat" where
  "GetMappingCount f = length (mappings f)"

text \<open>\<^verbatim>\<open>splitDNSName\<close>: the loop carries the parts found so far and the current part.\<close>

fun splitDNSName_loop :: "string \<Rightarrow> string list \<Rightarrow> string \<Rightarrow> string list" where
  "splitDNSName_loop [] parts current = (if current \<noteq> [] then parts @ [current] else parts)"
| "splitDNSName_loop (c # s) parts current =
     (if c = CHR ''.'' then
        (if current \<noteq> [] then splitDNSName_loop s (parts @ [current]) []
         else splitDNSName_loop s parts current)
      else splitDNSName_loop s parts (current @ [c]))"

definition splitDNSName :: "string \<Rightarrow> string list" where
  "splitDNSName s = splitDNSName_loop s [] []"

definition ptrToIP :: "(string \<Rightarrow> string) \<Rightarrow> string \<Rightarrow> string" where
  "ptrToIP canon ptr0 =
     (let ptr = canon ptr0 in
      if length ptr < 14 then []
      else if drop (length ptr - 14) ptr \<noteq> ''.in-addr.arpa.'' then []
      else
        (let parts = splitDNSName (take (length ptr - 14) ptr) in
         if length parts \<noteq> 4 then []
         else parts ! 3 @ ''.'' @ parts ! 2 @ ''.'' @ parts ! 1 @ ''.'' @ parts ! 0))"

definition getReverseDomain :: "(string \<Rightarrow> string) \<Rightarrow> FakeDNSServer \<Rightarrow> string \<Rightarrow> string" where
  "getReverseDomain canon f ptrName =
     (let ip = ptrToIP canon ptrName in if ip = [] then [] else lookupString (reverseMaps f) ip)"

text \<open>
  The FakeDNS handler: the loop over the questions carries the reply and the server
  state; the result is the message handed to \<^verbatim>\<open>w.WriteMsg\<close> and the state.  As in
  \<open>getFakeIP\<close>, \<open>canon\<close> stands for \<^verbatim>\<open>dns.CanonicalName\<close>.
\<close>

fun fakeAnswerQuestions :: "(string \<Rightarrow> string) \<Rightarrow> FakeDNSServer \<Rightarrow> Msg \<Rightarrow> Question list \<Rightarrow> Msg \<times> FakeDNSServer" where
  "fakeAnswerQuestions canon f m [] = (m, f)"
| "fakeAnswerQuestions canon f m (q # qs) =
     (if Qtype q = TypeA then
        (let (fakeIP, f') = getFakeIP canon f (QName q);
             rr = A_record \<lparr>HdrName = QName q, Rrtype = TypeA, Class = ClassINET, Ttl = ttl f\<rparr> fakeIP
         in fakeAnswerQuestions canon f' (m\<lparr>Answer := Answer m @ [rr]\<rparr>) qs)
      else if Qtype q = TypeAAAA then fakeAnswerQuestions canon f m qs
      else if Qtype q = TypePTR then
        (let domain = getReverseDomain canon f (QName q) in
         if domain \<noteq> [] then
           (let rr = PTR_record \<lparr>HdrName = QName q, Rrtype = TypePTR, Class = ClassINET, Ttl = ttl f\<rparr> domain
            in fakeAnswerQuestions canon f (m\<lparr>Answer := Answer m @ [rr]\<rparr>) qs)
         else fakeAnswerQuestions canon f m qs)
      else fakeAnswerQuestions canon f m qs)"

definition fake_handleDNS :: "(string \<Rightarrow> string) \<Rightarrow> FakeDNSServer \<Rightarrow> Msg \<Rightarrow> Msg \<times> FakeDNSServer" where
  "fake_handleDNS canon f r =
     (let m = (SetReply newMsg r)\<lparr>Authoritative := True\<rparr>
      in fakeAnswerQuestions canon f m (Questions r))"

section \<open>Anonymized resolver (package netfilter, dns.go)\<close>

text \<open>A run-time panic of the Go program is a value of the model.\<close>

datatype go_panic = NilPointerDereference | IndexOutOfRange

text \<open>Times and durations are nanosecond counts.\<close>

record dnsCacheEntry =
  response :: Msg
  timestamp :: int

record dnsCache =
  entries :: "(string \<times> dnsCacheEntry) list"
  maxAge :: int

text \<open>The field of \<^verbatim>\<open>config.TorConfig\<close> that the resolver reads.\<close>

record TorConfig =
  DNSPort :: int

text \<open>\<^verbatim>\<open>bypassCfg\<close> is a pointer and may be nil.\<close>

record DNSResolver =
  bypassCfg :: "BypassConfig option"
  torUpstream :: string
  fallback :: string
  cache :: dnsCache

definition itoa_int :: "int \<Rightarrow> string" where
  "itoa_int i = (if i < 0 then ''-'' @ itoa (nat (- i)) else itoa (nat i))"

definition NewDNSResolver :: "TorConfig \<Rightarrow> BypassConfig option \<Rightarrow> DNSResolver" where
  "NewDNSResolver torCfg bypass =
     \<lparr>bypassCfg = bypass,
      torUpstream = ''127.0.0.1:'' @ itoa_int (DNSPort torCfg),
      fallback = ''9.9.9.9:53'',
      cache = \<lparr>entries = [], maxAge = 5 * 60 * 1000000000\<rparr>\<rparr>"

fun anyPatternMatches :: "string list \<Rightarrow> string \<Rightarrow> bool" where
  "anyPatternMatches [] domain = False"
| "anyPatternMatches (pattern # rest) domain =
     (if matchDomain pattern domain then True else anyPatternMatches rest domain)"

definition shouldBypass :: "DNSResolver \<Rightarrow> string \<Rightarrow> bool" where
  "shouldBypass r domain =
     (case bypassCfg r of
        None \<Rightarrow> False
      | Some c \<Rightarrow> if \<not> Enabled c then False else anyPatternMatches (Domains c) domain)"

definition cacheKey :: "string \<Rightarrow> nat \<Rightarrow> string" where
  "cacheKey domain qtype = domain @ '':'' @ itoa qtype"

definition cache_get :: "dnsCache \<Rightarrow> int \<Rightarrow> string \<Rightarrow> nat \<Rightarrow> Msg option" where
  "cache_get c now domain qtype =
     (case map_of (entries c) (cacheKey domain qtype) of
        None \<Rightarrow> None
      | Some entry \<Rightarrow> if now - timestamp entry > maxAge c then None else Some (response entry))"

definition cache_set :: "dnsCache \<Rightarrow> int \<Rightarrow> string \<Rightarrow> nat \<Rightarrow> Msg \<Rightarrow> dnsCache" where
  "cache_set c now domain qtype msg =
     c\<lparr>entries := AList.update (cacheKey domain qtype) \<lparr>response = msg, timestamp = now\<rparr> (entries c)\<rparr>"

text \<open>
  What one call of the handler did: the messages handed to \<^verbatim>\<open>w.WriteMsg\<close>, the
  calls of \<^verbatim>\<open>client.Exchange\<close> in their order, and the resolver afterwards.  The
  source has three call sites of \<^verbatim>\<open>client.Exchange\<close>: the one of \<^verbatim>\<open>resolveTor\<close>
  (the anonymizer's DNS port), and the two of \<^verbatim>\<open>resolveBypass\<close> (the system
  resolver, then the loopback resolver); a call is recorded with its site and the
  address it was given.  The network is the parameter \<open>Exchange\<close>: the response of the
  upstream at an address to a request, or \<open>None\<close> for a timeout or transport error.
\<close>

datatype exchange_site = ToAnonymizer | ToSystemResolver | ToLoopbackResolver

record handled =
  written :: "Msg list"
  exchanged :: "(exchange_site \<times> string) list"
  resolver :: DNSResolver

definition HandleFailed :: "Msg \<Rightarrow> Msg" where
  "HandleFailed r = SetRcode newMsg r RcodeServerFailure"

definition resolveTor ::
  "DNSResolver \<Rightarrow> (string \<Rightarrow> Msg \<Rightarrow> Msg option) \<Rightarrow> int \<Rightarrow> Msg \<Rightarrow> string \<Rightarrow> go_panic + handled" where
  "resolveTor r Exchange now req domain =
     (case Exchange (torUpstream r) req of
        None \<Rightarrow>
          Inr \<lparr>written = [SetRcode newMsg req RcodeServerFailure],
               exchanged = [(ToAnonymizer, torUpstream r)], resolver = r\<rparr>
      | Some resp \<Rightarrow>
          (if Rcode resp = RcodeSuccess then
             (case Questions req of
                [] \<Rightarrow> Inl IndexOutOfRange
              | q # qs \<Rightarrow>
                  Inr \<lparr>written = [resp], exchanged = [(ToAnonymizer, torUpstream r)],
                       resolver = r\<lparr>cache := cache_set (cache r) now domain (Qtype q) resp\<rparr>\<rparr>)
           else Inr \<lparr>written = [resp], exchanged = [(ToAnonymizer, torUpstream r)],
                     resolver = r\<rparr>))"

definition resolveBypass ::
  "DNSResolver \<Rightarrow> (string \<Rightarrow> Msg \<Rightarrow> Msg option) \<Rightarrow> Msg \<Rightarrow> string \<Rightarrow> go_panic + handled" where
  "resolveBypass r Exchange req domain =
     (case Exchange ''127.0.0.53:53'' req of
        Some resp \<Rightarrow>
          Inr \<lparr>written = [resp], exchanged = [(ToSystemResolver, ''127.0.0.53:53'')],
               resolver = r\<rparr>
      | None \<Rightarrow>
          (case Exchange ''127.0.0.1:53'' req of
             None \<Rightarrow>
               Inr \<lparr>written = [SetRcode newMsg req RcodeNameError],
                    exchanged = [(ToSystemResolver, ''127.0.0.53:53''),
                                 (ToLoopbackResolver, ''127.0.0.1:53'')],
                    resolver = r\<rparr>
           | Some resp \<Rightarrow>
               Inr \<lparr>written = [resp],
                    exchanged = [(ToSystemResolver, ''127.0.0.53:53''),
                                 (ToLoopbackResolver, ''127.0.0.1:53'')],
                    resolver = r\<rparr>))"

definition handleDNS ::
  "DNSResolver \<Rightarrow> (string \<Rightarrow> Msg \<Rightarrow> Msg option) \<Rightarrow> int \<Rightarrow> Msg \<Rightarrow> go_panic + handled" where
  "handleDNS r Exchange now req =
     (case Questions req of
        [] \<Rightarrow> Inr \<lparr>written = [HandleFailed req], exchanged = [], resolver = r\<rparr>
      | question # qs \<Rightarrow>
          (let domain = TrimSuffix (QName question) ''.'' in
           if shouldBypass r domain then resolveBypass r Exchange req domain
           else
             (case cache_get (cache r) now domain (Qtype question) of
                Some cached \<Rightarrow>
                  Inr \<lparr>written = [cached\<lparr>Id := Id req\<rparr>], exchanged = [], resolver = r\<rparr>
              | None \<Rightarrow> resolveTor r Exchange now req domain)))"

section \<open>Country matcher (package bypass, GeoIPMatcher)\<close>

text \<open>
  The geolocation database is the library's reader: \<^verbatim>\<open>Country(ip)\<close> yields an ISO
  code or an error (\<open>None\<close>).  Opening a database file is the parameter \<open>Open\<close>.
  A \<^verbatim>\<open>*GeoIPMatcher\<close> is a pointer: \<open>None\<close> is nil.
\<close>

type_synonym geo_reader = "IP \<Rightarrow> string option"

record GeoIPMatcher =
  db :: "geo_reader option"
  countries :: "string \<rightharpoonup> bool"

datatype geo_error = OpenFailed string

definition defaultPaths :: "string list" where
  "defaultPaths =
     [''/usr/share/GeoIP/GeoLite2-Country.mmdb'',
      ''/var/lib/GeoIP/GeoLite2-Country.mmdb'',
      ''./GeoLite2-Country.mmdb'']"

definition countrySet :: "string list \<Rightarrow> (string \<rightharpoonup> bool)" where
  "countrySet cs = fold (\<lambda>c m. m(c \<mapsto> True)) cs Map.empty"

definition NewGeoIPMatcher ::
  "(string \<Rightarrow> geo_reader option) \<Rightarrow> string \<Rightarrow> string list \<Rightarrow> geo_error + GeoIPMatcher option" where
  "NewGeoIPMatcher Open dbPath0 cs =
     (let dbPath =
            (if dbPath0 = [] then
               (case find (\<lambda>p. Open p \<noteq> None) defaultPaths of None \<Rightarrow> [] | Some p \<Rightarrow> p)
             else dbPath0)
      in if dbPath = [] then Inr None
         else
           (case Open dbPath of
              None \<Rightarrow> Inl (OpenFailed dbPath)
            | Some reader \<Rightarrow> Inr (Some \<lparr>db = Some reader, countries = countrySet cs\<rparr>)))"

definition Match :: "GeoIPMatcher option \<Rightarrow> IP \<Rightarrow> go_panic + string \<times> bool" where
  "Match g ip =
     (case g of
        None \<Rightarrow> Inr ([], False)
      | Some m \<Rightarrow>
          (case db m of
             None \<Rightarrow> Inr ([], False)
           | Some reader \<Rightarrow>
               (case reader ip of
                  None \<Rightarrow> Inr ([], False)
                | Some country \<Rightarrow>
                    if countries m country = Some True then Inr (country, True)
                    else Inr ([], False))))"

definition GetCountry :: "GeoIPMatcher option \<Rightarrow> IP \<Rightarrow> go_panic + string" where
  "GetCountry g ip =
     (case g of
        None \<Rightarrow> Inr []
      | Some m \<Rightarrow>
          (case db m of
             None \<Rightarrow> Inr []
           | Some reader \<Rightarrow> (case reader ip of None \<Rightarrow> Inr [] | Some country \<Rightarrow> Inr country)))"

text \<open>
  \<^verbatim>\<open>AddCountry\<close> and \<^verbatim>\<open>RemoveCountry\<close> begin with \<^verbatim>\<open>g.mu.Lock()\<close> and have no
  nil check: on a nil receiver the field access is a nil pointer dereference.
\<close>

definition AddCountry :: "GeoIPMatcher option \<Rightarrow> string \<Rightarrow> go_panic + GeoIPMatcher" where
  "AddCountry g code =
     (case g of
        None \<Rightarrow> Inl NilPointerDereference
      | Some m \<Rightarrow> Inr (m\<lparr>countries := (countries m)(code \<mapsto> True)\<rparr>))"

definition RemoveCountry :: "GeoIPMatcher option \<Rightarrow> string \<Rightarrow> go_panic + GeoIPMatcher" where
  "RemoveCountry g code =
     (case g of
        None \<Rightarrow> Inl NilPointerDereference
      | Some m \<Rightarrow> Inr (m\<lparr>countries := (countries m)(code := None)\<rparr>))"

text \<open>\<^verbatim>\<open>Close\<close> returns the error of closing the database, if any; closing the reader
  itself is outside the model and taken to succeed.\<close>

definition Close :: "GeoIPMatcher option \<Rightarrow> go_panic + geo_error option" where
  "Close g =
     (case g of
        None \<Rightarrow> Inr None
      | Some m \<Rightarrow> (case db m of None \<Rightarrow> Inr None | Some reader \<Rightarrow> Inr None))"

section \<open>Specification-side and auxiliary definitions\<close>

text \<open>The node that the compiled expression holds for one rune of the glob pattern.\<close>

definition globNode :: "char \<Rightarrow> re_node" where
  "globNode c =
     (if c = CHR ''*'' then StarAnyCharNotNL
      else if c = CHR ''?'' then AnyCharNotNL
      else Literal c)"

text \<open>
  Glob matching as the specification words it: the whole input is consumed, a star
  stands for zero or more characters, a question mark for exactly one, and every other
  character of the pattern for itself.  In \<open>globSpecAny\<close> a wildcard character is any
  character; in \<open>globSpec\<close> it is any character but newline.
\<close>

fun globSpecAny :: "string \<Rightarrow> string \<Rightarrow> bool" where
  "globSpecAny [] s = (s = [])"
| "globSpecAny (p # ps) s =
     (if p = CHR ''*'' then
        list_ex (\<lambda>k. globSpecAny ps (drop k s)) [0..<Suc (length s)]
      else if p = CHR ''?'' then
        (case s of [] \<Rightarrow> False | c # cs \<Rightarrow> globSpecAny ps cs)
      else
        (case s of [] \<Rightarrow> False | c # cs \<Rightarrow> c = p \<and> globSpecAny ps cs))"

fun globSpec :: "string \<Rightarrow> string \<Rightarrow> bool" where
  "globSpec [] s = (s = [])"
| "globSpec (p # ps) s =
     (if p = CHR ''*'' then
        list_ex (\<lambda>k. newline \<notin> set (take k s) \<and> globSpec ps (drop k s)) [0..<Suc (length s)]
      else if p = CHR ''?'' then
        (case s of [] \<Rightarrow> False | c # cs \<Rightarrow> c \<noteq> newline \<and> globSpec ps cs)
      else
        (case s of [] \<Rightarrow> False | c # cs \<Rightarrow> c = p \<and> globSpec ps cs))"

text \<open>The number of literal dots that a sequence of nodes demands of its input.\<close>

fun literalDots :: "re_node list \<Rightarrow> nat" where
  "literalDots [] = 0"
| "literalDots (n # ns) =
     (if n = Literal (CHR ''.'') then Suc (literalDots ns) else literalDots ns)"

text \<open>
  \<^verbatim>\<open>MatchDomain\<close> as the specification words it: the first configured pattern that
  matches the lower-cased name wins with action bypass; otherwise the first custom rule
  of type domain whose matcher matches wins with its own action.
\<close>

definition ruleMatchesDomain :: "Rule \<Rightarrow> string \<Rightarrow> bool" where
  "ruleMatchesDomain r d =
     (Type r = RuleTypeDomain \<and>
      (case compiled r of CompiledRegexp re \<Rightarrow> MatchString re d | _ \<Rightarrow> False))"

definition MatchDomain_spec :: "(string \<Rightarrow> string) \<Rightarrow> Engine \<Rightarrow> string \<Rightarrow> MatchResult" where
  "MatchDomain_spec ToLower e name =
     (if Enabled (cfg e) then
        (case find (\<lambda>re. MatchString re (ToLower name)) (domainPatterns e) of
           Some re \<Rightarrow>
             \<lparr>Matched = True, MatchedRule = None, MatchedAction = ActionBypass,
              Reason = ''matches pattern '' @ expr re\<rparr>
         | None \<Rightarrow>
             (case find (\<lambda>r. ruleMatchesDomain r (ToLower name)) (customRules e) of
                Some r \<Rightarrow>
                  \<lparr>Matched = True, MatchedRule = Some r, MatchedAction = Action r,
                   Reason = Description r\<rparr>
              | None \<Rightarrow> noMatch))
      else noMatch)"

text \<open>
  The value of an address read as a big-endian number, and the address reached from
  \<open>c0\<close> by \<open>i\<close> increments of the cursor.
\<close>

fun ipval :: "IP \<Rightarrow> nat" where
  "ipval [] = 0"
| "ipval (b # bs) = unat b * 256 ^ length bs + ipval bs"

definition nthAddress :: "IP \<Rightarrow> nat \<Rightarrow> IP" where
  "nthAddress c0 i = (incrementIP ^^ i) c0"

text \<open>The number of addresses that four bytes can hold.\<close>

definition addressSpace :: nat where
  "addressSpace = 2 ^ 32"

definition isDigit :: "char \<Rightarrow> bool" where
  "isDigit c = (48 \<le> (of_char c :: nat) \<and> (of_char c :: nat) \<le> 57)"

text \<open>
  Reading address text back: a text split at a separator, the value of a hexadecimal
  field, and the eight fields of an IPv6 text (the fields before and after \<^verbatim>\<open>::\<close>, with
  zeros between them).  \<open>zeroRunOk\<close> is the invariant of the search for the longest run
  of zero fields.
\<close>

fun splitSep :: "char \<Rightarrow> string \<Rightarrow> string list" where
  "splitSep c [] = [[]]"
| "splitSep c (x # xs) =
     (if x = c then [] # splitSep c xs
      else (case splitSep c xs of [] \<Rightarrow> [[x]] | t # ts \<Rightarrow> (x # t) # ts))"

definition isHexChar :: "char \<Rightarrow> bool" where
  "isHexChar c = (c \<in> set ''0123456789abcdef'')"

definition hexval :: "char \<Rightarrow> nat" where
  "hexval c = (if isDigit c then of_char c - 48 else of_char c - 87)"

definition unhex :: "string \<Rightarrow> nat" where
  "unhex s = foldl (\<lambda>acc c. acc * 16 + hexval c) 0 s"

definition zeroRunOk :: "nat list \<Rightarrow> nat \<times> nat \<Rightarrow> bool" where
  "zeroRunOk fs r =
     (r = (255, 255)
      \<or> (fst r < snd r \<and> fst r < 8 \<and> snd r \<le> length fs
         \<and> (\<forall>k. fst r \<le> k \<and> k < snd r \<longrightarrow> fs ! k = 0)))"

definition decode6 :: "string \<Rightarrow> nat list" where
  "decode6 s =
     (let ts = splitSep (CHR '':'') s in
      if [] \<in> set ts then
        (let l = takeWhile (\<lambda>t. t \<noteq> []) ts; r = rev (takeWhile (\<lambda>t. t \<noteq> []) (rev ts))
         in map unhex l @ replicate (8 - length l - length r) 0 @ map unhex r)
      else map unhex ts)"

text \<open>
  The allocator's invariant, relative to its first cursor \<open>c0\<close>: the forward map has
  distinct keys, its addresses are the cursor positions in the order of allocation,
  the cursor is the next position, and the reverse map is the forward map flipped,
  a later entry overriding an earlier one with the same address text.
\<close>

definition flipEntry :: "string \<times> IP \<Rightarrow> string \<times> string" where
  "flipEntry e = (IP_String (snd e), fst e)"

definition allocInv :: "IP \<Rightarrow> FakeDNSServer \<Rightarrow> bool" where
  "allocInv c0 f =
     (distinct (map fst (mappings f))
      \<and> map snd (mappings f) = map (nthAddress c0) [0..<length (mappings f)]
      \<and> nextIP f = nthAddress c0 (length (mappings f))
      \<and> map_of (reverseMaps f) = map_of (rev (map flipEntry (mappings f)))
      \<and> distinct (map fst (reverseMaps f)))"

text \<open>
  The forward and the reverse map are a bijection: keys and values are distinct on both
  sides, and the reverse entries are exactly the forward entries flipped.
\<close>

definition mapsBijective :: "FakeDNSServer \<Rightarrow> bool" where
  "mapsBijective f =
     (distinct (map fst (mappings f)) \<and> distinct (map snd (mappings f))
      \<and> distinct (map fst (reverseMaps f)) \<and> distinct (map snd (reverseMaps f))
      \<and> set (reverseMaps f) = flipEntry ` set (mappings f))"

text \<open>
  An allocator on the block \<open>198.18.0.0/15\<close>, with the result of \<^verbatim>\<open>net.ParseCIDR\<close> on
  that block, and a family of pairwise different canonical names.
\<close>

definition fakeName :: "nat \<Rightarrow> string" where
  "fakeName i = itoa i @ ''.test.''"

definition exampleParseCIDR :: "string \<Rightarrow> IPNet option" where
  "exampleParseCIDR s =
     (if s = ''198.18.0.0/15'' then Some \<lparr>NetIP = [198, 18, 0, 0], Mask = [255, 254, 0, 0]\<rparr>
      else None)"

definition exampleConfig :: FakeDNSConfig where
  "exampleConfig = \<lparr>ListenAddr = ''127.0.0.1:5354'', FakeSubnet = ''198.18.0.0/15'', TTL = 60\<rparr>"

definition exampleServer :: FakeDNSServer where
  "exampleServer =
     \<lparr>running = False, listenAddr = ''127.0.0.1:5354'',
      fakeSubnet = \<lparr>NetIP = [198, 18, 0, 0], Mask = [255, 254, 0, 0]\<rparr>,
      mappings = [], reverseMaps = [], nextIP = [198, 18, 0, 1], ttl = 60\<rparr>"

text \<open>
  A classification engine on the patterns of \<^verbatim>\<open>TestEngineMatchDomain\<close>, a resolver
  with a bypass list, a query for a name, a query without a question, and a network
  on which every exchange fails.
\<close>

definition exampleEngine :: Engine where
  "exampleEngine =
     \<lparr>cfg = \<lparr>Enabled = True, Domains = [''*.local'', ''*.htb'', ''example.com'']\<rparr>,
      domainPatterns = compileDomainPatterns [''*.local'', ''*.htb'', ''example.com''],
      customRules = []\<rparr>"

definition exampleRule :: Rule where
  "exampleRule =
     \<lparr>Name = ''r1'', Type = RuleTypeDomain, Pattern = ''*.example'', Action = ActionBlock,
      Description = ''blocked by r1'', compiled = NoMatcher\<rparr>"

definition exampleResolver :: DNSResolver where
  "exampleResolver =
     NewDNSResolver \<lparr>DNSPort = 5353\<rparr>
       (Some \<lparr>Enabled = True, Domains = [''*.local'', ''intranet.example'']\<rparr>)"

text \<open>The same resolver when the anonymizer's DNS port is configured as 53.\<close>

definition exampleResolver53 :: DNSResolver where
  "exampleResolver53 =
     NewDNSResolver \<lparr>DNSPort = 53\<rparr>
       (Some \<lparr>Enabled = True, Domains = [''*.local'', ''intranet.example'']\<rparr>)"

definition exampleQuery :: "string \<Rightarrow> Msg" where
  "exampleQuery name =
     newMsg\<lparr>Id := 4660, RecursionDesired := True,
            Questions := [\<lparr>QName = name, Qtype = TypeA, Qclass = ClassINET\<rparr>]\<rparr>"

definition questionlessQuery :: Msg where
  "questionlessQuery = newMsg\<lparr>Id := 4660, RecursionDesired := True\<rparr>"

definition unreachable :: "string \<Rightarrow> Msg \<Rightarrow> Msg option" where
  "unreachable addr req = None"

definition noDatabase :: "string \<Rightarrow> geo_reader option" where
  "noDatabase path = None"

section \<open>The glob compiler\<close>

lemma writeGlobRune_parse:
  assumes "r \<noteq> []" "hd r \<noteq> CHR ''*''"
  shows "regexp_parse (writeGlobRune c @ r) = prepend (globNode c) (regexp_parse r)"
proof -
  obtain d r' where r: "r = d # r'" using assms(1) by (cases r) auto
  with assms(2) have d: "d \<noteq> CHR ''*''" by simp
  show ?thesis
    unfolding r using d
    by (auto simp: writeGlobRune_def globNode_def escapedRunes_def reOperators_def backslash_def)
qed

lemma writeGlobRune_nonempty: "writeGlobRune c \<noteq> []"
  by (simp add: writeGlobRune_def)

lemma writeGlobRune_hd: "hd (writeGlobRune c) \<noteq> CHR ''*''"
  by (simp add: writeGlobRune_def backslash_def)

lemma writeGlobRunes_hd:
  "writeGlobRunes p @ ''$'' \<noteq> [] \<and> hd (writeGlobRunes p @ ''$'') \<noteq> CHR ''*''"
  by (cases p) (simp_all add: writeGlobRune_nonempty writeGlobRune_hd)

lemma writeGlobRunes_parse:
  "regexp_parse (writeGlobRunes p @ ''$'') = Some (map globNode p @ [EndText])"
proof (induction p)
  case Nil
  show ?case by simp
next
  case (Cons c cs)
  have "regexp_parse (writeGlobRune c @ (writeGlobRunes cs @ ''$''))
      = prepend (globNode c) (regexp_parse (writeGlobRunes cs @ ''$''))"
    using writeGlobRunes_hd [of cs] by (intro writeGlobRune_parse) simp_all
  then show ?case using Cons.IH by simp
qed

lemma globRegexSource_parse:
  "regexp_parse (globRegexSource p) = Some (BeginText # map globNode p @ [EndText])"
proof -
  obtain d r where r: "writeGlobRunes p @ ''$'' = d # r"
    using writeGlobRunes_hd [of p] by (cases "writeGlobRunes p @ ''$''") auto
  have "regexp_parse (CHR ''^'' # d # r) = prepend BeginText (regexp_parse (d # r))"
    by simp
  then show ?thesis
    using writeGlobRunes_parse [of p] by (simp add: globRegexSource_def r)
qed

text \<open>Every glob pattern compiles, to the begin anchor, one node per rune, and the end
  anchor.\<close>

lemma compileGlobToRegex_total:
  "compileGlobToRegex p =
     Inr \<lparr>expr = globRegexSource p, prog = BeginText # map globNode p @ [EndText]\<rparr>"
  by (simp add: compileGlobToRegex_def regexp_Compile_def globRegexSource_parse)

lemma MatchString_BeginText:
  "prog re = BeginText # ns \<Longrightarrow> MatchString re s = matchHere ns 0 s"
  by (auto simp: MatchString_def list_ex_iff intro: bexI [of _ 0])

lemma matchHere_star:
  "matchHere (StarAnyCharNotNL # ns) pos s =
     (\<exists>k\<le>length s. newline \<notin> set (take k s) \<and> matchHere ns (pos + k) (drop k s))"
proof (induction s arbitrary: pos)
  case Nil
  show ?case by simp
next
  case (Cons c cs)
  show ?case (is "?L = ?R")
  proof
    assume ?L
    then consider "matchHere ns pos (c # cs)"
      | "c \<noteq> newline" "matchHere (StarAnyCharNotNL # ns) (Suc pos) cs" by auto
    then show ?R
    proof cases
      case 1
      then show ?thesis by (intro exI [of _ 0]) simp
    next
      case 2
      then obtain k where "k \<le> length cs" "newline \<notin> set (take k cs)"
        "matchHere ns (Suc pos + k) (drop k cs)" using Cons.IH by blast
      with 2(1) show ?thesis by (intro exI [of _ "Suc k"]) auto
    qed
  next
    assume ?R
    then obtain k where k: "k \<le> length (c # cs)" "newline \<notin> set (take k (c # cs))"
      "matchHere ns (pos + k) (drop k (c # cs))" by blast
    show ?L
    proof (cases k)
      case 0
      with k show ?thesis by simp
    next
      case (Suc j)
      with k have "j \<le> length cs" "newline \<notin> set (take j cs)" "c \<noteq> newline"
        "matchHere ns (Suc pos + j) (drop j cs)" by auto
      then have "matchHere (StarAnyCharNotNL # ns) (Suc pos) cs" using Cons.IH by blast
      with \<open>c \<noteq> newline\<close> show ?thesis by simp
    qed
  qed
qed

lemma matchHere_glob:
  "matchHere (map globNode p @ [EndText]) pos s = globSpec p s"
proof (induction p arbitrary: pos s)
  case Nil
  show ?case by simp
next
  case (Cons c cs)
  let ?ns = "map globNode cs @ [EndText]"
  have IH: "\<And>pos s. matchHere ?ns pos s = globSpec cs s" by (rule Cons.IH)
  show ?case
  proof (cases "c = CHR ''*''")
    case True
    have "matchHere (map globNode (c # cs) @ [EndText]) pos s
        = matchHere (StarAnyCharNotNL # ?ns) pos s"
      using True by (simp add: globNode_def)
    also have "\<dots> = (\<exists>k\<le>length s. newline \<notin> set (take k s) \<and> globSpec cs (drop k s))"
      unfolding matchHere_star IH ..
    also have "\<dots> = globSpec (c # cs) s"
      using True by (simp add: list_ex_iff Bex_def less_Suc_eq_le del: upt_Suc)
    finally show ?thesis .
  next
    case False
    show ?thesis
    proof (cases "c = CHR ''?''")
      case True
      then have "map globNode (c # cs) @ [EndText] = AnyCharNotNL # ?ns"
        by (simp add: globNode_def)
      then show ?thesis using True by (cases s) (simp_all add: IH)
    next
      case q: False
      with False have "map globNode (c # cs) @ [EndText] = Literal c # ?ns"
        by (simp add: globNode_def)
      then show ?thesis using False q by (cases s) (simp_all add: IH)
    qed
  qed
qed

lemma MatchString_compiled_glob:
  "MatchString \<lparr>expr = globRegexSource p, prog = BeginText # map globNode p @ [EndText]\<rparr> s
     = globSpec p s"
  by (simp add: MatchString_BeginText matchHere_glob)

lemma globMatches_globSpec: "globMatches p s = globSpec p s"
  by (simp add: globMatches_def compileGlobToRegex_total MatchString_compiled_glob)

lemma globSpec_literal:
  "CHR ''*'' \<notin> set p \<Longrightarrow> CHR ''?'' \<notin> set p \<Longrightarrow> globSpec p s = (s = p)"
  by (induction p arbitrary: s) (auto split: list.splits)

lemma globMatches_exact_com: "globMatches ''exact.com'' s = (s = ''exact.com'')"
proof -
  have "globSpec ''exact.com'' s = (s = ''exact.com'')"
    by (rule globSpec_literal) simp_all
  then show ?thesis by (simp only: globMatches_globSpec)
qed

text \<open>
  Claim C7, as amended.  Every glob pattern compiles, and the compiled expression
  matches an input exactly when the whole input is an instance of the pattern, where
  a star stands for zero or more characters other than newline, a question mark for
  exactly one character other than newline, and every other character (the dot
  included) for itself.  The pattern \<open>*.local\<close> matches \<open>test.local\<close> and
  \<open>sub.test.local\<close> but not \<open>local\<close>, and \<open>exact.com\<close> matches \<open>exact.com\<close> and no
  other string.
\<close>

theorem glob_compiler_anchored_semantics:
  "(\<exists>re. compileGlobToRegex pattern = Inr re \<and>
         (\<forall>input. MatchString re input = globSpec pattern input))
   \<and> globMatches ''*.local'' ''test.local''
   \<and> globMatches ''*.local'' ''sub.test.local''
   \<and> \<not> globMatches ''*.local'' ''local''
   \<and> (\<forall>input. globMatches ''exact.com'' input = (input = ''exact.com''))"
proof -
  have a: "\<exists>re. compileGlobToRegex pattern = Inr re \<and>
         (\<forall>input. MatchString re input = globSpec pattern input)"
    by (simp add: compileGlobToRegex_total MatchString_compiled_glob)
  have b: "globMatches ''*.local'' ''test.local''" by code_simp
  have c: "globMatches ''*.local'' ''sub.test.local''" by code_simp
  have d: "\<not> globMatches ''*.local'' ''local''" by code_simp
  show ?thesis using a b c d globMatches_exact_com by blast
qed

theorem glob_compiler_anchored_semantics_witness:
  "(\<exists>re. compileGlobToRegex ''te?t.*'' = Inr re \<and> MatchString re ''test.com''
          \<and> \<not> MatchString re ''xtest.com'' \<and> \<not> MatchString re ''tet.com'')
   \<and> globSpec ''te?t.*'' ''test.com''"
proof -
  have a: "globSpec ''te?t.*'' ''test.com''" by code_simp
  have b: "\<not> globSpec ''te?t.*'' ''xtest.com''" by code_simp
  have c: "\<not> globSpec ''te?t.*'' ''tet.com''" by code_simp
  show ?thesis
    using glob_compiler_anchored_semantics [of "''te?t.*''"] a b c by metis
qed

text \<open>
  Claim C7 as stated fails on an input with a newline: with wildcards read as any
  character, the pattern \<open>*\<close> matches the one-character input that is a newline, and
  \<open>*.local\<close> matches \<open>a\<close>, newline, \<open>b.local\<close>; the compiled expressions match neither.
\<close>

theorem glob_wildcards_skip_newline_counterexample:
  "globSpecAny ''*'' [newline] \<and> \<not> globMatches ''*'' [newline]
   \<and> globSpecAny ''*.local'' (''a'' @ [newline] @ ''b.local'')
   \<and> \<not> globMatches ''*.local'' (''a'' @ [newline] @ ''b.local'')"
  by code_simp

section \<open>The two bypass matchers on apex domains\<close>

lemma matchHere_dots:
  "matchHere ns pos s \<Longrightarrow> literalDots ns \<le> count_list s (CHR ''.'')"
  by (induction ns pos s rule: matchHere.induct) (auto split: if_splits)

lemma literalDots_glob:
  "literalDots (map globNode p @ [EndText]) = count_list p (CHR ''.'')"
  by (induction p) (auto simp: globNode_def)

lemma compiled_glob_needs_dots:
  assumes "MatchString \<lparr>expr = globRegexSource p, prog = BeginText # map globNode p @ [EndText]\<rparr> s"
  shows "count_list p (CHR ''.'') \<le> count_list s (CHR ''.'')"
  using assms matchHere_dots [of "map globNode p @ [EndText]" 0 s]
  by (simp add: MatchString_BeginText literalDots_glob)

text \<open>
  Claim C10.  For every string \<open>X\<close>, the resolver's \<open>matchDomain\<close> with pattern
  \<open>*.X\<close> accepts \<open>X\<close> itself and every domain that ends in \<open>.X\<close>, while the
  expression that the classification engine compiles from the same pattern rejects \<open>X\<close>.
\<close>

theorem apex_domain_matchers_disagree:
  "matchDomain (''*.'' @ X) X
   \<and> (\<forall>pre. matchDomain (''*.'' @ X) (pre @ ''.'' @ X))
   \<and> (\<exists>re. compileGlobToRegex (''*.'' @ X) = Inr re \<and> \<not> MatchString re X)
   \<and> \<not> globMatches (''*.'' @ X) X"
proof -
  have a: "matchDomain (''*.'' @ X) X"
    by (simp add: matchDomain_def HasPrefix_def)
  have b: "\<forall>pre. matchDomain (''*.'' @ X) (pre @ ''.'' @ X)"
    by (simp add: matchDomain_def HasPrefix_def HasSuffix_def)
  have c: "\<not> MatchString \<lparr>expr = globRegexSource (''*.'' @ X),
                prog = BeginText # map globNode (''*.'' @ X) @ [EndText]\<rparr> X"
    using compiled_glob_needs_dots [of "''*.'' @ X" X] by auto
  then have d: "\<exists>re. compileGlobToRegex (''*.'' @ X) = Inr re \<and> \<not> MatchString re X"
    by (simp add: compileGlobToRegex_total)
  have e: "\<not> globMatches (''*.'' @ X) X"
    using c by (simp add: globMatches_def compileGlobToRegex_total)
  show ?thesis using a b d e by blast
qed

theorem apex_domain_matchers_disagree_witness:
  "matchDomain ''*.local'' ''local'' \<and> matchDomain ''*.local'' ''printer.local''
   \<and> \<not> globMatches ''*.local'' ''local''"
  using apex_domain_matchers_disagree [of "''local''"]
    spec [of "\<lambda>pre. matchDomain (''*.'' @ ''local'') (pre @ ''.'' @ ''local'')" "''printer''"]
  by simp

section \<open>Domain classification\<close>

lemma matchDomainPatterns_find:
  "matchDomainPatterns res d =
     map_option (\<lambda>re. \<lparr>Matched = True, MatchedRule = None, MatchedAction = ActionBypass,
                       Reason = ''matches pattern '' @ expr re\<rparr>)
       (find (\<lambda>re. MatchString re d) res)"
  by (induction res) simp_all

lemma matchCustomRules_find:
  "matchCustomRules rs d =
     map_option (\<lambda>r. \<lparr>Matched = True, MatchedRule = Some r, MatchedAction = Action r,
                      Reason = Description r\<rparr>)
       (find (\<lambda>r. ruleMatchesDomain r d) rs)"
  by (induction rs) (simp_all add: ruleMatchesDomain_def split: compiled_matcher.splits)

text \<open>
  Claim C2.  \<open>MatchDomain\<close> returns the non-matching result when the engine is
  disabled; otherwise it lower-cases the name, and the first configured pattern (in
  their order) that matches wins with action bypass; failing that, the first custom
  rule of type domain (in their order) whose matcher matches wins with the rule's own
  action; failing that, the result is non-matching.  The lower-casing function is
  arbitrary in the statement: it holds for \<^verbatim>\<open>strings.ToLower\<close> on every name.
\<close>

theorem MatchDomain_first_match_wins:
  "MatchDomain ToLower e name = MatchDomain_spec ToLower e name
   \<and> (\<not> Enabled (cfg e) \<longrightarrow> MatchDomain ToLower e name = noMatch)"
  by (simp add: MatchDomain_def MatchDomain_spec_def matchDomainPatterns_find
      matchCustomRules_find split: option.splits)

text \<open>On the names below, which are ASCII, \<^verbatim>\<open>strings.ToLower\<close> is \<open>asciiToLower\<close>.\<close>

theorem MatchDomain_first_match_wins_witness:
  "(case AddRule exampleParseCIDR exampleEngine exampleRule of
      Inl err \<Rightarrow> False
    | Inr e \<Rightarrow>
        Matched (MatchDomain asciiToLower e ''Box.HTB'')
        \<and> MatchedAction (MatchDomain asciiToLower e ''Box.HTB'') = ActionBypass
        \<and> Matched (MatchDomain asciiToLower e ''test.example'')
        \<and> MatchedAction (MatchDomain asciiToLower e ''test.example'') = ActionBlock
        \<and> \<not> Matched (MatchDomain asciiToLower e ''sub.example.com'')
        \<and> \<not> Matched (MatchDomain asciiToLower (e\<lparr>cfg := (cfg e)\<lparr>Enabled := False\<rparr>\<rparr>) ''box.htb''))"
proof -
  have "(case AddRule exampleParseCIDR exampleEngine exampleRule of
      Inl err \<Rightarrow> False
    | Inr e \<Rightarrow>
        Matched (MatchDomain_spec asciiToLower e ''Box.HTB'')
        \<and> MatchedAction (MatchDomain_spec asciiToLower e ''Box.HTB'') = ActionBypass
        \<and> Matched (MatchDomain_spec asciiToLower e ''test.example'')
        \<and> MatchedAction (MatchDomain_spec asciiToLower e ''test.example'') = ActionBlock
        \<and> \<not> Matched (MatchDomain_spec asciiToLower e ''sub.example.com'')
        \<and> \<not> Matched (MatchDomain_spec asciiToLower (e\<lparr>cfg := (cfg e)\<lparr>Enabled := False\<rparr>\<rparr>) ''box.htb''))"
    by code_simp
  then show ?thesis by (simp only: MatchDomain_first_match_wins [THEN conjunct1])
qed

section \<open>The address cursor\<close>

lemma ipval_snoc: "ipval (bs @ [b]) = ipval bs * 256 + unat b"
  by (induction bs) (simp_all add: algebra_simps)

lemma digit_bound:
  fixes a r m :: nat
  assumes "a < 256" "r < m"
  shows "a * m + r < 256 * m"
proof -
  have "a * m + r < a * m + m" using assms by simp
  also have "\<dots> = Suc a * m" by simp
  also have "\<dots> \<le> 256 * m" using assms by (intro mult_le_mono1) simp
  finally show ?thesis .
qed

lemma byte_bound: "unat (b :: byte) < 256"
  using unsigned_less [of b, where ?'a = nat] by simp

lemma ipval_bound: "ipval bs < 256 ^ length bs"
proof (induction bs)
  case Nil
  show ?case by simp
next
  case (Cons b bs)
  show ?case using digit_bound [OF byte_bound Cons] by simp
qed

lemma ipval_inject: "length xs = length ys \<Longrightarrow> ipval xs = ipval ys \<Longrightarrow> xs = ys"
proof (induction xs arbitrary: ys)
  case Nil
  then show ?case by simp
next
  case (Cons x xs)
  then obtain y ys' where ys: "ys = y # ys'" by (cases ys) auto
  with Cons.prems have len: "length xs = length ys'" by simp
  let ?m = "(256::nat) ^ length xs"
  have eq: "unat x * ?m + ipval xs = unat y * ?m + ipval ys'"
    using Cons.prems ys len by simp
  have bx: "ipval xs < ?m" by (rule ipval_bound)
  have by': "ipval ys' < ?m" using ipval_bound [of ys'] len by simp
  have "(unat x * ?m + ipval xs) div ?m = unat x" using bx by simp
  moreover have "(unat y * ?m + ipval ys') div ?m = unat y" using by' by simp
  ultimately have xy: "unat x = unat y" using eq by simp
  then have "ipval xs = ipval ys'" using eq by simp
  with Cons.IH len have "xs = ys'" by blast
  moreover from xy have "x = y" by (simp add: word_unat_eq_iff)
  ultimately show ?case using ys by simp
qed

lemma length_incrementIP_from: "length (incrementIP_from n ip) = length ip"
  by (induction n arbitrary: ip) (simp_all add: Let_def)

lemma length_incrementIP: "length (incrementIP ip) = length ip"
  by (simp add: incrementIP_def length_incrementIP_from)

lemma incrementIP_from_prefix:
  "incrementIP_from (length pre) (pre @ post) = incrementIP_from (length pre) pre @ post"
proof (induction pre arbitrary: post rule: rev_induct)
  case Nil
  show ?case by simp
next
  case (snoc b pre)
  have "incrementIP_from (length pre) (pre @ ((b + 1) # post))
      = incrementIP_from (length pre) pre @ ((b + 1) # post)" by (rule snoc.IH)
  moreover have "incrementIP_from (length pre) (pre @ [b + 1])
      = incrementIP_from (length pre) pre @ [b + 1]" by (rule snoc.IH)
  ultimately show ?case by (simp add: Let_def nth_append)
qed

lemma incrementIP_snoc:
  "incrementIP (pre @ [b]) = (if b + 1 \<noteq> 0 then pre @ [b + 1] else incrementIP pre @ [0])"
  using incrementIP_from_prefix [of pre "[b + 1]"]
  by (auto simp: incrementIP_def Let_def nth_append word_greater_zero_iff)

lemma byte_succ: "unat ((b :: byte) + 1) = (unat b + 1) mod 256"
  by (simp add: unat_word_ariths)

lemma byte_succ_zero: "((b :: byte) + 1 = 0) = (unat b = 255)"
proof -
  have "((b :: byte) + 1 = 0) = (unat (b + 1) = 0)"
    by (simp add: unat_eq_0)
  also have "\<dots> = (unat b = 255)"
    using byte_bound [of b] unfolding byte_succ by presburger
  finally show ?thesis .
qed

lemma unat_plus_one: "(b :: byte) + 1 \<noteq> 0 \<Longrightarrow> unat (b + 1) = unat b + 1"
  using byte_bound [of b] unfolding byte_succ_zero byte_succ by simp

lemma ipval_incrementIP:
  "ipval (incrementIP ip) = (ipval ip + 1) mod 256 ^ length ip"
proof (induction ip rule: rev_induct)
  case Nil
  show ?case by (simp add: incrementIP_def)
next
  case (snoc b pre)
  show ?case
  proof (cases "b + 1 = 0")
    case False
    have "ipval pre < 256 ^ length pre" by (rule ipval_bound)
    then have "Suc (ipval pre) \<le> 256 ^ length pre" by simp
    then have "Suc (ipval pre) * 256 \<le> 256 ^ length pre * 256" by (rule mult_le_mono1)
    moreover have "unat b + 1 < 256"
      using False byte_bound [of b] unfolding byte_succ_zero by simp
    ultimately have "ipval pre * 256 + unat b + 1 < 256 ^ length pre * 256"
      by simp
    then show ?thesis
      using False by (simp add: incrementIP_snoc ipval_snoc unat_plus_one)
  next
    case True
    have "ipval (incrementIP pre @ [0]) = ((ipval pre + 1) mod 256 ^ length pre) * 256"
      by (simp add: ipval_snoc snoc.IH)
    also have "\<dots> = ((ipval pre + 1) * 256) mod (256 ^ length pre * 256)"
      by (rule mod_mult_mult2 [symmetric])
    also have "(ipval pre + 1) * 256 = ipval (pre @ [b]) + 1"
      using True unfolding byte_succ_zero by (simp add: ipval_snoc)
    also have "256 ^ length pre * 256 = (256::nat) ^ length (pre @ [b])"
      by simp
    finally show ?thesis using True by (simp add: incrementIP_snoc)
  qed
qed

lemma length_nthAddress: "length (nthAddress c0 i) = length c0"
  by (induction i) (simp_all add: nthAddress_def length_incrementIP)

lemma ipval_nthAddress:
  "ipval (nthAddress c0 i) = (ipval c0 + i) mod 256 ^ length c0"
proof (induction i)
  case 0
  show ?case using ipval_bound [of c0] by (simp add: nthAddress_def)
next
  case (Suc i)
  have "ipval (nthAddress c0 (Suc i)) = (ipval (nthAddress c0 i) + 1) mod 256 ^ length c0"
    using ipval_incrementIP [of "nthAddress c0 i"]
    by (simp add: nthAddress_def length_nthAddress [unfolded nthAddress_def])
  also have "\<dots> = (ipval c0 + Suc i) mod 256 ^ length c0"
    unfolding Suc.IH by (simp add: mod_Suc_eq)
  finally show ?case .
qed

lemma nthAddress_eq_iff:
  "nthAddress c0 i = nthAddress c0 j \<longleftrightarrow> i mod 256 ^ length c0 = j mod 256 ^ length c0"
proof -
  let ?m = "(256::nat) ^ length c0"
  have "nthAddress c0 i = nthAddress c0 j \<longleftrightarrow> ipval (nthAddress c0 i) = ipval (nthAddress c0 j)"
    using ipval_inject [of "nthAddress c0 i" "nthAddress c0 j"]
    by (auto simp: length_nthAddress)
  also have "\<dots> \<longleftrightarrow> (ipval c0 + i) mod ?m = (ipval c0 + j) mod ?m"
    by (simp add: ipval_nthAddress)
  also have "\<dots> \<longleftrightarrow> i mod ?m = j mod ?m"
  proof
    assume a: "(ipval c0 + i) mod ?m = (ipval c0 + j) mod ?m"
    have "int ((ipval c0 + i) mod ?m) = int ((ipval c0 + j) mod ?m)" using a by simp
    then have "(int (ipval c0) + int i) mod int ?m = (int (ipval c0) + int j) mod int ?m"
      by (simp add: zmod_int)
    then have "int ?m dvd (int (ipval c0) + int i) - (int (ipval c0) + int j)"
      by (simp only: mod_eq_dvd_iff)
    then have "int ?m dvd int i - int j" by simp
    then have "int i mod int ?m = int j mod int ?m" by (simp only: mod_eq_dvd_iff)
    then have "int (i mod ?m) = int (j mod ?m)" by (simp add: zmod_int)
    then show "i mod ?m = j mod ?m" by (simp only: of_nat_eq_iff)
  next
    assume "i mod ?m = j mod ?m"
    then show "(ipval c0 + i) mod ?m = (ipval c0 + j) mod ?m"
      by (metis mod_add_right_eq)
  qed
  finally show ?thesis .
qed

lemma nthAddress_inj_on:
  "n \<le> 256 ^ length c0 \<Longrightarrow> inj_on (nthAddress c0) {0..<n}"
  by (auto simp: inj_on_def nthAddress_eq_iff)

lemma distinct_nthAddresses:
  "n \<le> 256 ^ length c0 \<Longrightarrow> distinct (map (nthAddress c0) [0..<n])"
  by (simp add: distinct_map nthAddress_inj_on)

lemma nthAddress_wrap: "nthAddress c0 (256 ^ length c0) = c0"
  using nthAddress_eq_iff [of c0 "256 ^ length c0" 0] by (simp add: nthAddress_def)

section \<open>Decimal text and address text\<close>

lemma digit_range: "k < 10 \<Longrightarrow> (48 + k) mod 256 = (48 + k :: nat)"
  by simp

lemma of_char_char_of_nat: "(of_char (char_of (m::nat)) :: nat) = m mod 256"
  by (rule of_char_of)

lemma of_char_digit: "k < 10 \<Longrightarrow> (of_char (digit k) :: nat) = 48 + k"
  unfolding digit_def of_char_char_of_nat by (rule digit_range)

lemma digit_inject:
  assumes "a < 10" "b < 10" "digit a = digit b"
  shows "a = b"
proof -
  have "(of_char (digit a) :: nat) = of_char (digit b)" using assms(3) by (rule arg_cong)
  then have "48 + a = 48 + b"
    unfolding of_char_digit [OF assms(1)] of_char_digit [OF assms(2)] .
  then show ?thesis by simp
qed

lemma itoa_nonempty: "itoa n \<noteq> []"
  by (subst itoa.simps) simp

lemma itoa_inject: "itoa n = itoa m \<Longrightarrow> n = m"
proof (induction n arbitrary: m rule: itoa.induct)
  case (1 n)
  show ?case
  proof (cases "n < 10")
    case True
    then have n: "itoa n = [digit n]" by (subst itoa.simps) simp
    show ?thesis
    proof (cases "m < 10")
      case True
      then have "itoa m = [digit m]" by (subst itoa.simps) simp
      with n "1.prems" have "digit n = digit m" by simp
      then show ?thesis using \<open>n < 10\<close> \<open>m < 10\<close> digit_inject by blast
    next
      case False
      then have "itoa m = itoa (m div 10) @ [digit (m mod 10)]" by (subst itoa.simps) simp
      with n "1.prems" itoa_nonempty [of "m div 10"] show ?thesis by (cases "itoa (m div 10)") auto
    qed
  next
    case False
    then have n: "itoa n = itoa (n div 10) @ [digit (n mod 10)]" by (subst itoa.simps) simp
    show ?thesis
    proof (cases "m < 10")
      case True
      then have "itoa m = [digit m]" by (subst itoa.simps) simp
      with n "1.prems" itoa_nonempty [of "n div 10"] show ?thesis by (cases "itoa (n div 10)") auto
    next
      case m: False
      then have "itoa m = itoa (m div 10) @ [digit (m mod 10)]" by (subst itoa.simps) simp
      with n "1.prems" have e: "itoa (n div 10) = itoa (m div 10)" "digit (n mod 10) = digit (m mod 10)"
        by simp_all
      from "1.IH" [OF False e(1)] have "n div 10 = m div 10" .
      moreover have "n mod 10 = m mod 10" using e(2) digit_inject [of "n mod 10" "m mod 10"] by simp
      ultimately show ?thesis by (metis div_mult_mod_eq)
    qed
  qed
qed

lemma isDigit_digit: "k < 10 \<Longrightarrow> isDigit (digit k)"
  by (simp add: isDigit_def of_char_digit)

lemma itoa_digits: "c \<in> set (itoa n) \<Longrightarrow> isDigit c"
proof (induction n rule: itoa.induct)
  case (1 n)
  show ?case
  proof (cases "n < 10")
    case True
    with "1.prems" show ?thesis by (subst (asm) itoa.simps) (auto simp: isDigit_digit)
  next
    case False
    with "1.prems" have "c \<in> set (itoa (n div 10)) \<or> c = digit (n mod 10)"
      by (subst (asm) itoa.simps) auto
    then show ?thesis using "1.IH" [OF False] isDigit_digit [of "n mod 10"] by auto
  qed
qed

lemma dot_not_in_itoa: "CHR ''.'' \<notin> set (itoa n)"
  using itoa_digits [of "CHR ''.''" n] by (auto simp: isDigit_def)

text \<open>Splitting a joined text gives back the parts.\<close>

lemma splitSep_token: "c \<notin> set t \<Longrightarrow> splitSep c (t @ c # rest) = t # splitSep c rest"
  by (induction t) (auto split: list.splits)

lemma splitSep_last: "c \<notin> set t \<Longrightarrow> splitSep c t = [t]"
  by (induction t) auto

lemma splitSep_join:
  "ts \<noteq> [] \<Longrightarrow> \<forall>t\<in>set ts. c \<notin> set t \<Longrightarrow> splitSep c (joinSep c ts) = ts"
  by (induction c ts rule: joinSep.induct) (simp_all add: splitSep_last splitSep_token)

lemma splitSep_join_then:
  "\<forall>t\<in>set ts. c \<notin> set t \<Longrightarrow>
   splitSep c (joinSep c ts @ c # rest) = (if ts = [] then [[]] else ts) @ splitSep c rest"
  by (induction c ts rule: joinSep.induct) (simp_all add: splitSep_token)

text \<open>Hexadecimal fields are read back, and the text of eight fields determines them.\<close>

lemma hexval_hexDigit_all: "\<forall>n\<in>set [0..<16]. hexval (hexDigit n) = n"
  by code_simp

lemma hexval_hexDigit: "n < 16 \<Longrightarrow> hexval (hexDigit n) = n"
  using hexval_hexDigit_all by simp

lemma hexDigit_chars: "n < 16 \<Longrightarrow> isHexChar (hexDigit n)"
  unfolding hexDigit_def isHexChar_def by (rule nth_mem) simp

lemma appendHex_nonempty: "appendHex x \<noteq> []"
  by (simp add: appendHex_def)

lemma appendHex_chars:
  assumes "x < 65536" and "c \<in> set (appendHex x)"
  shows "isHexChar c"
proof -
  have "x div 4096 < 16" using assms(1) by simp
  then have "isHexChar (hexDigit (x div 4096))" "isHexChar (hexDigit (x div 256 mod 16))"
    "isHexChar (hexDigit (x div 16 mod 16))" "isHexChar (hexDigit (x mod 16))"
    by (simp_all add: hexDigit_chars)
  then show ?thesis using assms(2) by (auto simp: appendHex_def split: if_splits)
qed

lemma unhex_digits:
  "unhex [a] = hexval a"
  "unhex [a, b] = hexval a * 16 + hexval b"
  "unhex [a, b, c] = (hexval a * 16 + hexval b) * 16 + hexval c"
  "unhex [a, b, c, d] = ((hexval a * 16 + hexval b) * 16 + hexval c) * 16 + hexval d"
  by (simp_all add: unhex_def)

lemma unhex_appendHex:
  assumes "x < 65536"
  shows "unhex (appendHex x) = x"
proof -
  have d: "x div 4096 < 16" using assms by simp
  have h: "hexval (hexDigit (x div 4096)) = x div 4096"
    "hexval (hexDigit (x div 256 mod 16)) = x div 256 mod 16"
    "hexval (hexDigit (x div 16 mod 16)) = x div 16 mod 16"
    "hexval (hexDigit (x mod 16)) = x mod 16"
    using d by (simp_all add: hexval_hexDigit)
  have q1: "x div 16 div 16 = x div 256" by (simp add: div_mult2_eq [symmetric])
  have q2: "x div 256 div 16 = x div 4096" by (simp add: div_mult2_eq [symmetric])
  have a: "x div 16 * 16 + x mod 16 = x" by simp
  have b: "x div 256 * 16 + x div 16 mod 16 = x div 16"
    using div_mult_mod_eq [of "x div 16" 16] by (simp only: q1)
  have c: "x div 4096 * 16 + x div 256 mod 16 = x div 256"
    using div_mult_mod_eq [of "x div 256" 16] by (simp only: q2)
  consider "x < 16" | "16 \<le> x" "x < 256" | "256 \<le> x" "x < 4096" | "4096 \<le> x" by linarith
  then show ?thesis
  proof cases
    case 1
    then have "appendHex x = [hexDigit (x mod 16)]" by (simp add: appendHex_def)
    then have "unhex (appendHex x) = x mod 16" by (simp only: unhex_digits h)
    then show ?thesis using 1 by simp
  next
    case 2
    then have "appendHex x = [hexDigit (x div 16 mod 16), hexDigit (x mod 16)]"
      by (simp add: appendHex_def)
    then have "unhex (appendHex x) = x div 16 mod 16 * 16 + x mod 16" by (simp only: unhex_digits h)
    moreover have "x div 16 mod 16 = x div 16" using 2 by simp
    ultimately show ?thesis using a by simp
  next
    case 3
    then have "appendHex x = [hexDigit (x div 256 mod 16), hexDigit (x div 16 mod 16), hexDigit (x mod 16)]"
      by (simp add: appendHex_def)
    then have "unhex (appendHex x) = (x div 256 mod 16 * 16 + x div 16 mod 16) * 16 + x mod 16"
      by (simp only: unhex_digits h)
    moreover have "x div 256 mod 16 = x div 256" using 3 by simp
    ultimately show ?thesis using a b by simp
  next
    case 4
    then have "appendHex x = [hexDigit (x div 4096), hexDigit (x div 256 mod 16),
        hexDigit (x div 16 mod 16), hexDigit (x mod 16)]"
      by (simp add: appendHex_def)
    then have "unhex (appendHex x)
        = ((x div 4096 * 16 + x div 256 mod 16) * 16 + x div 16 mod 16) * 16 + x mod 16"
      by (simp only: unhex_digits h)
    then show ?thesis by (simp only: c b a)
  qed
qed

lemma v6u16s_bound: "x \<in> set (v6u16s ip) \<Longrightarrow> x < 65536"
proof (induction ip rule: v6u16s.induct)
  case (1 hi lo rest)
  have "unat hi * 256 + unat lo < 65536" using byte_bound [of hi] byte_bound [of lo] by simp
  with 1 show ?case by auto
qed simp_all

lemma length_v6u16s: "length (v6u16s ip) = length ip div 2"
  by (induction ip rule: v6u16s.induct) simp_all

lemma v6u16s_inject:
  "length a = length b \<Longrightarrow> even (length a) \<Longrightarrow> v6u16s a = v6u16s b \<Longrightarrow> a = b"
proof (induction a arbitrary: b rule: v6u16s.induct)
  case (1 hi lo rest)
  from "1.prems"(1) obtain hi' lo' rest' where b: "b = hi' # lo' # rest'"
    by (cases b; cases "tl b") auto
  from "1.prems" b have e: "unat hi * 256 + unat lo = unat hi' * 256 + unat lo'"
    and r: "v6u16s rest = v6u16s rest'" by simp_all
  have "(unat hi * 256 + unat lo) div 256 = unat hi" "(unat hi * 256 + unat lo) mod 256 = unat lo"
    "(unat hi' * 256 + unat lo') div 256 = unat hi'" "(unat hi' * 256 + unat lo') mod 256 = unat lo'"
    using byte_bound [of lo] byte_bound [of lo'] by simp_all
  then have "unat hi = unat hi'" "unat lo = unat lo'" using e by metis+
  then have "hi = hi'" "lo = lo'" by (simp_all add: word_unat_eq_iff)
  moreover have "rest = rest'" using "1.IH" [of rest'] "1.prems" b r by simp
  ultimately show ?case by (simp add: b)
next
  case (2 v)
  from "2.prems"(2) show ?case by simp
next
  case 3
  then show ?case by simp
qed

lemma zeroRun_zero:
  assumes "i \<le> k" "k < i + zeroRunLength fs i"
  shows "fs ! k = 0"
proof -
  let ?xs = "drop i fs"
  let ?tw = "takeWhile (\<lambda>x. x = 0) ?xs"
  have j: "k - i < length ?tw" using assms by (simp add: zeroRunLength_def)
  then have "?tw ! (k - i) \<in> set ?tw" by (rule nth_mem)
  then have "?tw ! (k - i) = 0" by (auto dest: set_takeWhileD)
  moreover have "?tw ! (k - i) = ?xs ! (k - i)" using j by (rule takeWhile_nth)
  moreover have "length ?tw \<le> length ?xs" by (rule length_takeWhile_le)
  then have "i + (k - i) < length fs" using j by simp
  then have "?xs ! (k - i) = fs ! k" using assms(1) by simp
  ultimately show ?thesis by simp
qed

lemma zeroRun_le: "0 < zeroRunLength fs i \<Longrightarrow> i + zeroRunLength fs i \<le> length fs"
proof -
  assume p: "0 < zeroRunLength fs i"
  have "zeroRunLength fs i \<le> length (drop i fs)"
    unfolding zeroRunLength_def by (rule length_takeWhile_le)
  with p show ?thesis by simp
qed

lemma zeroRunOk_fold:
  "\<forall>i\<in>set js. i < 8 \<Longrightarrow> zeroRunOk fs r \<Longrightarrow>
   zeroRunOk fs (fold (\<lambda>i (zeroStart, zeroEnd).
             (let l = zeroRunLength fs i
              in if 2 \<le> l \<and> zeroEnd - zeroStart < l then (i, i + l) else (zeroStart, zeroEnd))) js r)"
proof (induction js arbitrary: r)
  case Nil
  then show ?case by simp
next
  case (Cons j js)
  obtain zs ze where r: "r = (zs, ze)" by (cases r)
  let ?l = "zeroRunLength fs j"
  let ?r' = "if 2 \<le> ?l \<and> ze - zs < ?l then (j, j + ?l) else (zs, ze)"
  have "zeroRunOk fs ?r'"
  proof (cases "2 \<le> ?l \<and> ze - zs < ?l")
    case True
    then have "j + ?l \<le> length fs" using zeroRun_le [of fs j] by simp
    moreover have "\<forall>k. j \<le> k \<and> k < j + ?l \<longrightarrow> fs ! k = 0" using zeroRun_zero by blast
    moreover have "j < 8" using Cons.prems(1) by simp
    ultimately show ?thesis using True by (simp add: zeroRunOk_def)
  next
    case False
    then show ?thesis using Cons.prems(2) r by auto
  qed
  then show ?case using Cons.IH [of ?r'] Cons.prems(1) by (simp add: r Let_def)
qed

lemma longestZeroRun_ok: "zeroRunOk fs (longestZeroRun fs)"
  unfolding longestZeroRun_def by (rule zeroRunOk_fold) (simp_all add: zeroRunOk_def)


lemma hexChar_not_sep:
  "isHexChar c \<Longrightarrow> c \<noteq> CHR '':''" "isHexChar c \<Longrightarrow> c \<noteq> CHR ''.''"
  "isHexChar c \<Longrightarrow> c \<noteq> CHR ''?''" "isHexChar c \<Longrightarrow> c \<noteq> CHR ''<''"
  by (auto simp: isHexChar_def)

lemma appendHex_no_colon: "x < 65536 \<Longrightarrow> CHR '':'' \<notin> set (appendHex x)"
  using appendHex_chars hexChar_not_sep(1) by blast

lemma unhex_appendHex_map: "\<forall>x\<in>set fs. x < 65536 \<Longrightarrow> map unhex (map appendHex fs) = fs"
  by (induction fs) (simp_all add: unhex_appendHex)

lemma takeWhile_tokens:
  "\<forall>t\<in>set ts. t \<noteq> [] \<Longrightarrow>
   takeWhile (\<lambda>t. t \<noteq> []) ((if ts = [] then [[]] else ts) @ [] # rest) = ts"
  by (cases "ts = []") (simp_all add: takeWhile_append2)

lemma fill_zero_run:
  assumes "zs \<le> ze" "ze \<le> length fs" "\<forall>k. zs \<le> k \<and> k < ze \<longrightarrow> fs ! k = (0::nat)"
  shows "take zs fs @ replicate (ze - zs) 0 @ drop ze fs = fs"
proof (rule nth_equalityI)
  show "length (take zs fs @ replicate (ze - zs) 0 @ drop ze fs) = length fs"
    using assms(1,2) by simp
next
  fix i assume "i < length (take zs fs @ replicate (ze - zs) 0 @ drop ze fs)"
  then have i: "i < length fs" using assms(1,2) by simp
  show "(take zs fs @ replicate (ze - zs) 0 @ drop ze fs) ! i = fs ! i"
  proof (cases "i < zs")
    case True
    then show ?thesis using assms(1,2) by (simp add: nth_append)
  next
    case False
    note nz = this
    show ?thesis
    proof (cases "i < ze")
      case True
      then have "fs ! i = 0" using nz assms(3) by simp
      moreover have "i - zs < ze - zs" using nz True by simp
      ultimately show ?thesis using nz assms(1,2) by (simp add: nth_append)
    next
      case False
      then have "i - zs - (ze - zs) = i - ze" using assms(1) by simp
      moreover have "ze + (i - ze) = i" using False by simp
      moreover have "\<not> i - zs < ze - zs" using False assms(1) by simp
      ultimately show ?thesis using nz False assms(1,2) i by (simp add: nth_append min_def)
    qed
  qed
qed

lemma decode6_string6:
  assumes len: "length fs = 8" and bnd: "\<forall>x\<in>set fs. x < 65536"
  shows "decode6 (string6 fs) = fs"
proof -
  obtain zs ze where r: "longestZeroRun fs = (zs, ze)" by (cases "longestZeroRun fs")
  have ok: "zeroRunOk fs (zs, ze)" using longestZeroRun_ok [of fs] r by simp
  have tok: "\<forall>t\<in>set (map appendHex gs). CHR '':'' \<notin> set t"
    and ne: "\<forall>t\<in>set (map appendHex gs). t \<noteq> []" if "set gs \<subseteq> set fs" for gs
    using that bnd by (auto simp: appendHex_no_colon appendHex_nonempty)
  show ?thesis
  proof (cases "zs < 8")
    case True
    with ok have z: "zs < ze" "ze \<le> length fs" "\<forall>k. zs \<le> k \<and> k < ze \<longrightarrow> fs ! k = 0"
      by (auto simp: zeroRunOk_def)
    let ?L = "map appendHex (take zs fs)"
    let ?R = "map appendHex (drop ze fs)"
    let ?L' = "if ?L = [] then [[]] else ?L"
    let ?R' = "if ?R = [] then [[]] else ?R"
    have subL: "set (take zs fs) \<subseteq> set fs" by (rule set_take_subset)
    have subR: "set (drop ze fs) \<subseteq> set fs" by (rule set_drop_subset)
    have s: "string6 fs = joinSep (CHR '':'') ?L @ CHR '':'' # CHR '':'' # joinSep (CHR '':'') ?R"
      using True by (simp add: string6_def r)
    have sR: "splitSep (CHR '':'') (joinSep (CHR '':'') ?R) = ?R'"
    proof (cases "?R = []")
      case True
      then show ?thesis by simp
    next
      case False
      then show ?thesis using splitSep_join [OF False tok [OF subR]] by simp
    qed
    have ts: "splitSep (CHR '':'') (string6 fs) = ?L' @ [] # ?R'"
      unfolding s splitSep_join_then [OF tok [OF subL]] using sR by simp
    have mem: "[] \<in> set (?L' @ [] # ?R')" by simp
    have l: "takeWhile (\<lambda>t. t \<noteq> []) (?L' @ [] # ?R') = ?L"
      by (rule takeWhile_tokens) (rule ne [OF subL])
    have "\<forall>t\<in>set (rev ?R). t \<noteq> []" using ne [OF subR] by simp
    then have "takeWhile (\<lambda>t. t \<noteq> []) ((if rev ?R = [] then [[]] else rev ?R) @ [] # rev ?L') = rev ?R"
      by (rule takeWhile_tokens)
    moreover have "rev (?L' @ [] # ?R') = (if rev ?R = [] then [[]] else rev ?R) @ [] # rev ?L'"
      by simp
    ultimately have rr: "rev (takeWhile (\<lambda>t. t \<noteq> []) (rev (?L' @ [] # ?R'))) = ?R"
      by (simp only: rev_rev_ident)
    have "decode6 (string6 fs)
        = map unhex ?L @ replicate (8 - length ?L - length ?R) 0 @ map unhex ?R"
      unfolding decode6_def ts Let_def l rr using mem by (simp only: if_True)
    also have "map unhex ?L = take zs fs"
      by (rule unhex_appendHex_map) (use bnd subL in blast)
    also have "map unhex ?R = drop ze fs"
      by (rule unhex_appendHex_map) (use bnd subR in blast)
    also have "8 - length ?L - length ?R = ze - zs" using z len by simp
    also have "take zs fs @ replicate (ze - zs) 0 @ drop ze fs = fs"
      by (rule fill_zero_run) (use z in simp_all)
    finally show ?thesis .
  next
    case False
    have fne: "map appendHex fs \<noteq> []" using len by auto
    have s: "string6 fs = joinSep (CHR '':'') (map appendHex fs)"
      using False by (simp add: string6_def r)
    have ts: "splitSep (CHR '':'') (string6 fs) = map appendHex fs"
      unfolding s by (rule splitSep_join [OF fne tok]) simp
    have "[] \<notin> set (map appendHex fs)" using ne [of fs] by auto
    then have "decode6 (string6 fs) = map unhex (map appendHex fs)"
      unfolding decode6_def ts Let_def by (simp only: if_False)
    then show ?thesis using unhex_appendHex_map [OF bnd] by simp
  qed
qed


lemma string6_inject:
  assumes "length fs = 8" "length gs = 8" "\<forall>x\<in>set fs. x < 65536" "\<forall>x\<in>set gs. x < 65536"
    and "string6 fs = string6 gs"
  shows "fs = gs"
proof -
  have "decode6 (string6 fs) = decode6 (string6 gs)" using assms(5) by simp
  then show ?thesis
    unfolding decode6_string6 [OF assms(1,3)] decode6_string6 [OF assms(2,4)] .
qed

lemma joinSep_chars:
  "x \<in> set (joinSep c ts) \<Longrightarrow> x = c \<or> (\<exists>t\<in>set ts. x \<in> set t)"
  by (induction c ts rule: joinSep.induct) auto

lemma joinSep_has_sep: "2 \<le> length ts \<Longrightarrow> c \<in> set (joinSep c ts)"
  by (induction c ts rule: joinSep.induct) auto

lemma string6_chars:
  assumes "\<forall>x\<in>set fs. x < 65536" and "c \<in> set (string6 fs)"
  shows "isHexChar c \<or> c = CHR '':''"
proof -
  obtain zs ze where r: "longestZeroRun fs = (zs, ze)" by (cases "longestZeroRun fs")
  have tok: "isHexChar c" if "t \<in> set (map appendHex gs)" "c \<in> set t" "set gs \<subseteq> set fs" for t gs
    using that assms(1) appendHex_chars by auto
  show ?thesis
  proof (cases "zs < 8")
    case True
    then have "c \<in> set (joinSep (CHR '':'') (map appendHex (take zs fs))) \<or> c = CHR '':''
        \<or> c \<in> set (joinSep (CHR '':'') (map appendHex (drop ze fs)))"
      using assms(2) by (auto simp: string6_def r)
    then show ?thesis
      using tok [OF _ _ set_take_subset] tok [OF _ _ set_drop_subset]
      by (blast dest: joinSep_chars)
  next
    case False
    then have "c \<in> set (joinSep (CHR '':'') (map appendHex fs))"
      using assms(2) by (simp add: string6_def r)
    then show ?thesis using tok [OF _ _ subset_refl] by (blast dest: joinSep_chars)
  qed
qed

lemma string6_has_colon:
  assumes "length fs = 8"
  shows "CHR '':'' \<in> set (string6 fs)"
proof -
  obtain zs ze where r: "longestZeroRun fs = (zs, ze)" by (cases "longestZeroRun fs")
  show ?thesis
  proof (cases "zs < 8")
    case True
    then show ?thesis by (simp add: string6_def r)
  next
    case False
    have "CHR '':'' \<in> set (joinSep (CHR '':'') (map appendHex fs))"
      by (rule joinSep_has_sep) (simp add: assms)
    then show ?thesis using False by (simp add: string6_def r)
  qed
qed

lemma dottedDecimal_chars:
  "c \<in> set (dottedDecimal p) \<Longrightarrow> isDigit c \<or> c = CHR ''.''"
  unfolding dottedDecimal_def using itoa_digits by (auto dest!: joinSep_chars)

lemma dottedDecimal_has_dot: "length p = 4 \<Longrightarrow> CHR ''.'' \<in> set (dottedDecimal p)"
  unfolding dottedDecimal_def by (rule joinSep_has_sep) simp

lemma dottedDecimal_inject:
  assumes "p \<noteq> []" "q \<noteq> []" "dottedDecimal p = dottedDecimal q"
  shows "p = q"
proof -
  let ?f = "\<lambda>b :: byte. itoa (unat b)"
  have tok: "\<forall>t\<in>set (map ?f r). CHR ''.'' \<notin> set t" for r
    using dot_not_in_itoa by auto
  have "splitSep (CHR ''.'') (dottedDecimal p) = map ?f p"
    unfolding dottedDecimal_def by (rule splitSep_join [OF _ tok]) (simp add: assms(1))
  moreover have "splitSep (CHR ''.'') (dottedDecimal q) = map ?f q"
    unfolding dottedDecimal_def by (rule splitSep_join [OF _ tok]) (simp add: assms(2))
  ultimately have "map ?f p = map ?f q" using assms(3) by simp
  moreover have "inj ?f"
  proof (rule injI)
    fix x y :: byte assume "itoa (unat x) = itoa (unat y)"
    then have "unat x = unat y" by (rule itoa_inject)
    then show "x = y" by (simp add: word_unat_eq_iff)
  qed
  ultimately show ?thesis by (simp add: inj_map_eq_map)
qed

lemma hexString_inject: "hexString a = hexString b \<Longrightarrow> a = b"
proof (induction a arbitrary: b)
  case Nil
  then show ?case by (cases b) (simp_all add: hexString_def)
next
  case (Cons x a)
  then obtain y b' where b: "b = y # b'" by (cases b) (simp_all add: hexString_def)
  from Cons.prems b have hd: "hexDigit (unat x div 16) = hexDigit (unat y div 16)"
    "hexDigit (unat x mod 16) = hexDigit (unat y mod 16)" and tl: "hexString a = hexString b'"
    by (simp_all add: hexString_def)
  have dx: "unat x div 16 < 16" "unat y div 16 < 16"
    using byte_bound [of x] byte_bound [of y] by simp_all
  have "hexval (hexDigit (unat x div 16)) = hexval (hexDigit (unat y div 16))"
    "hexval (hexDigit (unat x mod 16)) = hexval (hexDigit (unat y mod 16))"
    using hd by simp_all
  then have "unat x div 16 = unat y div 16" "unat x mod 16 = unat y mod 16"
    using dx by (simp_all add: hexval_hexDigit)
  then have "unat x = unat y" by (metis div_mult_mod_eq)
  then have "x = y" by (simp add: word_unat_eq_iff)
  moreover have "a = b'" using Cons.IH tl by blast
  ultimately show ?case by (simp add: b)
qed

lemma To4_Some:
  "To4 ip = Some p \<Longrightarrow>
   length p = 4 \<and> (ip = p \<or> (length ip = 16 \<and> ip = v4InV6Prefix @ p))"
proof -
  assume t: "To4 ip = Some p"
  show ?thesis
  proof (cases "length ip = 4")
    case True
    then show ?thesis using t by (simp add: To4_def)
  next
    case False
    then have c: "length ip = 16" "take 12 ip = v4InV6Prefix" "p = drop 12 ip"
      using t by (auto simp: To4_def split: if_splits)
    have "ip = take 12 ip @ drop 12 ip" by simp
    then have "ip = v4InV6Prefix @ p" using c by simp
    then show ?thesis using c by simp
  qed
qed

lemma To4_None: "To4 ip = None \<Longrightarrow> length ip \<noteq> 4"
  by (auto simp: To4_def split: if_splits)

text \<open>
  The four shapes of address text: \<^verbatim>\<open><nil>\<close>, a question mark and hexadecimal digits,
  dotted decimal, and IPv6 text.  Texts of different shapes differ in a character.
\<close>

lemma IP_String_cases [case_names N H D S]:
  obtains (N) "ip = []" "IP_String ip = ''<nil>''"
  | (H) "ip \<noteq> []" "length ip \<noteq> 4" "length ip \<noteq> 16" "IP_String ip = ''?'' @ hexString ip"
  | (D) p where "To4 ip = Some p" "length p = 4" "IP_String ip = dottedDecimal p"
  | (S) "length ip = 16" "To4 ip = None" "IP_String ip = string6 (v6u16s ip)"
proof (cases "To4 ip")
  case None
  note n4 = To4_None [OF None]
  show ?thesis
  proof (cases "ip = []")
    case True
    then have "IP_String ip = ''<nil>''" by (simp add: IP_String_def)
    with True show ?thesis by (rule N)
  next
    case False
    note ne = this
    show ?thesis
    proof (cases "length ip = 16")
      case True
      then have "IP_String ip = string6 (v6u16s ip)" by (simp add: IP_String_def None)
      with True None show ?thesis by (rule S)
    next
      case False
      then have "IP_String ip = ''?'' @ hexString ip" using ne n4 by (simp add: IP_String_def)
      with ne n4 False show ?thesis by (rule H)
    qed
  qed
next
  case (Some p)
  note t = To4_Some [OF Some]
  then have "length ip = 4 \<or> length ip = 16" by (auto simp: v4InV6Prefix_def)
  then have "IP_String ip = dottedDecimal p" using Some by (auto simp: IP_String_def)
  moreover have "length p = 4" using t by simp
  ultimately show ?thesis using D [OF Some] by simp
qed

lemma shape_DN: "length p = 4 \<Longrightarrow> dottedDecimal p \<noteq> ''<nil>''"
proof
  assume l: "length p = 4" and e: "dottedDecimal p = ''<nil>''"
  from dottedDecimal_has_dot [OF l] show False unfolding e by simp
qed

lemma shape_DH: "dottedDecimal p \<noteq> CHR ''?'' # h"
proof
  assume e: "dottedDecimal p = CHR ''?'' # h"
  have "CHR ''?'' \<in> set (dottedDecimal p)" unfolding e by simp
  then have "isDigit (CHR ''?'') \<or> CHR ''?'' = CHR ''.''" by (rule dottedDecimal_chars)
  then show False by (simp add: isDigit_def)
qed

lemma shape_DS: "length fs = 8 \<Longrightarrow> dottedDecimal p \<noteq> string6 fs"
proof
  assume l: "length fs = 8" and e: "dottedDecimal p = string6 fs"
  have "CHR '':'' \<in> set (dottedDecimal p)" unfolding e using l by (rule string6_has_colon)
  then have "isDigit (CHR '':'') \<or> CHR '':'' = CHR ''.''" by (rule dottedDecimal_chars)
  then show False by (simp add: isDigit_def)
qed

lemma shape_SN: "length fs = 8 \<Longrightarrow> string6 fs \<noteq> ''<nil>''"
proof
  assume l: "length fs = 8" and e: "string6 fs = ''<nil>''"
  from string6_has_colon [OF l] show False unfolding e by simp
qed

lemma shape_SH: "\<forall>x\<in>set fs. x < 65536 \<Longrightarrow> string6 fs \<noteq> CHR ''?'' # h"
proof
  assume b: "\<forall>x\<in>set fs. x < 65536" and e: "string6 fs = CHR ''?'' # h"
  have "CHR ''?'' \<in> set (string6 fs)" unfolding e by simp
  then have "isHexChar (CHR ''?'') \<or> CHR ''?'' = CHR '':''" by (rule string6_chars [OF b])
  then show False by (simp add: isHexChar_def)
qed

lemma v6u16s_fields:
  "length ip = 16 \<Longrightarrow> length (v6u16s ip) = 8"
  "\<forall>x\<in>set (v6u16s ip). x < 65536"
  using v6u16s_bound by (auto simp: length_v6u16s)

text \<open>
  Two addresses with the same text are the same address, and conversely; addresses
  of equal length with the same text are equal.
\<close>

lemma IP_String_Equal:
  assumes e: "IP_String a = IP_String b"
  shows "IP_Equal a b"
proof (cases a rule: IP_String_cases)
  case N
  show ?thesis
  proof (cases b rule: IP_String_cases)
    case N
    then show ?thesis using \<open>a = []\<close> by (simp add: IP_Equal_def)
  next
    case H
    then show ?thesis using N(2) e by simp
  next
    case (D q)
    then show ?thesis using shape_DN [of q] N(2) e by simp
  next
    case S
    then show ?thesis using shape_SN [of "v6u16s b"] v6u16s_fields(1) [of b] N(2) e by simp
  qed
next
  case H
  show ?thesis
  proof (cases b rule: IP_String_cases)
    case N
    then show ?thesis using H(4) e by simp
  next
    case Hb: H
    then have "hexString a = hexString b" using H(4) e by simp
    then have "a = b" by (rule hexString_inject)
    then show ?thesis by (simp add: IP_Equal_def)
  next
    case (D q)
    then show ?thesis using shape_DH [of q "hexString a"] H(4) e by simp
  next
    case S
    then show ?thesis using shape_SH [of "v6u16s b" "hexString a"] v6u16s_fields(2) [of b] H(4) e by simp
  qed
next
  case (D p)
  note pa = To4_Some [OF D(1)]
  show ?thesis
  proof (cases b rule: IP_String_cases)
    case N
    then show ?thesis using shape_DN [of p] D e by simp
  next
    case H
    then show ?thesis using shape_DH [of p "hexString b"] D e by simp
  next
    case Db: (D q)
    note qb = To4_Some [OF Db(1)]
    have "dottedDecimal p = dottedDecimal q" using D Db e by simp
    moreover have "p \<noteq> []" "q \<noteq> []" using D(2) Db(2) by auto
    ultimately have pq: "p = q" using dottedDecimal_inject by blast
    have l12: "length v4InV6Prefix = 12" by (simp add: v4InV6Prefix_def)
    from pa qb show ?thesis
      unfolding pq by (auto simp: IP_Equal_def l12)
  next
    case S
    then show ?thesis using shape_DS [of "v6u16s b" p] v6u16s_fields(1) [of b] D e by simp
  qed
next
  case S
  show ?thesis
  proof (cases b rule: IP_String_cases)
    case N
    then show ?thesis using shape_SN [of "v6u16s a"] v6u16s_fields(1) [of a] S e by simp
  next
    case H
    then show ?thesis using shape_SH [of "v6u16s a" "hexString b"] v6u16s_fields(2) [of a] S e by simp
  next
    case (D q)
    then show ?thesis using shape_DS [of "v6u16s a" q] v6u16s_fields(1) [of a] S e by simp
  next
    case Sb: S
    then have "string6 (v6u16s a) = string6 (v6u16s b)" using S e by simp
    then have "v6u16s a = v6u16s b"
      using string6_inject [of "v6u16s a" "v6u16s b"] v6u16s_fields S(1) Sb(1) by blast
    then have "a = b" using v6u16s_inject [of a b] S(1) Sb(1) by simp
    then show ?thesis by (simp add: IP_Equal_def)
  qed
qed

lemma IP_Equal_String: "IP_Equal a b \<Longrightarrow> IP_String a = IP_String b"
proof -
  assume eq: "IP_Equal a b"
  have l12: "length v4InV6Prefix = 12" by (simp add: v4InV6Prefix_def)
  have m: "IP_String (v4InV6Prefix @ p) = IP_String p" if "length p = 4" for p
    using that by (simp add: IP_String_def To4_def l12)
  show ?thesis
  proof (cases "length a = length b")
    case True
    then show ?thesis using eq by (simp add: IP_Equal_def)
  next
    case ne: False
    show ?thesis
    proof (cases "length a = 4 \<and> length b = 16")
      case True
      then have "take 12 b = v4InV6Prefix \<and> a = drop 12 b"
        using eq ne unfolding IP_Equal_def by (simp only: if_False if_True)
      moreover have "take 12 b @ drop 12 b = b" by (rule append_take_drop_id)
      ultimately have "b = v4InV6Prefix @ a" by simp
      then show ?thesis using m [of a] True by simp
    next
      case False
      then have "length a = 16 \<and> length b = 4"
        using eq ne unfolding IP_Equal_def by (simp only: if_False split: if_splits)
      then have "take 12 a = v4InV6Prefix \<and> drop 12 a = b"
        using eq ne False unfolding IP_Equal_def by (simp only: if_False if_True)
      moreover have "take 12 a @ drop 12 a = a" by (rule append_take_drop_id)
      ultimately have "a = v4InV6Prefix @ b" by metis
      then show ?thesis using m [of b] \<open>length a = 16 \<and> length b = 4\<close> by simp
    qed
  qed
qed

lemma IP_String_inject: "length x = length y \<Longrightarrow> IP_String x = IP_String y \<Longrightarrow> x = y"
  using IP_String_Equal [of x y] by (simp add: IP_Equal_def)

section \<open>The allocator and its invariant\<close>

text \<open>The lemmas of this section hold for every canonicalisation function \<open>canon\<close>.\<close>

lemma update_fresh: "map_of al k = None \<Longrightarrow> AList.update k v al = al @ [(k, v)]"
  by (induction al) (auto split: if_splits)

lemma getFakeIP_existing:
  "map_of (mappings f) (canon d) = Some a \<Longrightarrow> getFakeIP canon f d = (a, f)"
  by (simp add: getFakeIP_def)

lemma getFakeIP_new:
  "map_of (mappings f) (canon d) = None \<Longrightarrow>
   getFakeIP canon f d =
     (nextIP f,
      f\<lparr>mappings := mappings f @ [(canon d, nextIP f)],
        reverseMaps := AList.update (IP_String (nextIP f)) (canon d) (reverseMaps f),
        nextIP := incrementIP (nextIP f)\<rparr>)"
  by (simp add: getFakeIP_def update_fresh Let_def)

lemma getFakeIP_result_mapped:
  "getFakeIP canon f d = (a, f') \<Longrightarrow> map_of (mappings f') (canon d) = Some a"
  by (cases "map_of (mappings f) (canon d)")
     (auto simp: getFakeIP_new getFakeIP_existing map_add_def)

lemma getFakeIP_persist:
  "map_of (mappings f) k = Some a \<Longrightarrow> map_of (mappings (snd (getFakeIP canon f d))) k = Some a"
  by (cases "map_of (mappings f) (canon d)")
     (auto simp: getFakeIP_new getFakeIP_existing map_add_def)

lemma getFakeIPs_persist:
  "map_of (mappings f) k = Some a \<Longrightarrow> map_of (mappings (getFakeIPs canon f ds)) k = Some a"
  by (induction ds arbitrary: f) (simp_all add: getFakeIP_persist)

lemma getFakeIPs_append:
  "getFakeIPs canon f (xs @ ys) = getFakeIPs canon (getFakeIPs canon f xs) ys"
  by (induction xs arbitrary: f) simp_all

lemma length_getFakeIP:
  "GetMappingCount (snd (getFakeIP canon f d)) =
     (if canon d \<in> fst ` set (mappings f) then GetMappingCount f
      else Suc (GetMappingCount f))"
proof (cases "map_of (mappings f) (canon d)")
  case None
  then have "canon d \<notin> fst ` set (mappings f)" by (simp add: map_of_eq_None_iff)
  then show ?thesis using None by (simp add: getFakeIP_new GetMappingCount_def)
next
  case (Some a)
  then have "canon d \<in> fst ` set (mappings f)"
    by (metis map_of_eq_None_iff option.distinct(1))
  then show ?thesis using Some by (simp add: getFakeIP_existing)
qed

lemma allocInv_step:
  assumes "allocInv c0 f"
  shows "allocInv c0 (snd (getFakeIP canon f d))"
proof (cases "map_of (mappings f) (canon d)")
  case (Some a)
  then show ?thesis using assms by (simp add: getFakeIP_existing)
next
  case None
  let ?k = "canon d"
  let ?n = "length (mappings f)"
  have fresh: "?k \<notin> fst ` set (mappings f)" using None by (simp add: map_of_eq_None_iff)
  have nx: "nextIP f = nthAddress c0 ?n" using assms by (simp add: allocInv_def)
  have "incrementIP (nthAddress c0 ?n) = nthAddress c0 (Suc ?n)"
    by (simp add: nthAddress_def)
  moreover have "map_of (AList.update (IP_String (nextIP f)) ?k (reverseMaps f))
      = map_of (rev (map flipEntry (mappings f @ [(?k, nextIP f)])))"
    using assms by (simp add: allocInv_def update_conv' flipEntry_def)
  moreover have "distinct (map fst (AList.update (IP_String (nextIP f)) ?k (reverseMaps f)))"
    using assms by (simp add: allocInv_def distinct_update)
  ultimately show ?thesis
    using assms fresh nx
    by (simp add: getFakeIP_new [where canon = canon and d = d, OF None] allocInv_def)
qed

lemma allocInv_run: "allocInv c0 f \<Longrightarrow> allocInv c0 (getFakeIPs canon f ds)"
  by (induction ds arbitrary: f) (simp_all add: allocInv_step)

lemma allocInv_init:
  "NewFakeDNSServer ParseCIDR c = Inr f0 \<Longrightarrow> allocInv (nextIP f0) f0"
  by (auto simp: NewFakeDNSServer_def allocInv_def nthAddress_def split: option.splits)

lemma init_length:
  "NewFakeDNSServer ParseCIDR c = Inr f0 \<Longrightarrow> length (nextIP f0) = length (NetIP (fakeSubnet f0))"
  by (auto simp: NewFakeDNSServer_def length_incrementIP split: option.splits)

lemma allocInv_values_length:
  assumes "allocInv c0 f" "(k, a) \<in> set (mappings f)"
  shows "length a = length c0"
proof -
  have "a \<in> set (map snd (mappings f))" using assms(2) by force
  moreover have "map snd (mappings f) = map (nthAddress c0) [0..<length (mappings f)]"
    using assms(1) by (simp add: allocInv_def)
  ultimately have "a \<in> set (map (nthAddress c0) [0..<length (mappings f)])" by simp
  then show ?thesis by (auto simp: length_nthAddress)
qed

text \<open>
  While the cursor has not gone round the address space of its length, the addresses
  handed out are pairwise different, and so are their texts: the two maps are a
  bijection.
\<close>

lemma allocInv_bijective:
  assumes inv: "allocInv c0 f"
    and bound: "GetMappingCount f \<le> 256 ^ length c0"
  shows "mapsBijective f"
proof -
  let ?m = "mappings f"
  have dv: "distinct (map snd ?m)"
    using inv bound distinct_nthAddresses [of "length ?m" c0]
    by (simp add: allocInv_def GetMappingCount_def)
  have dk: "distinct (map fst ?m)" using inv by (simp add: allocInv_def)
  have inj: "inj_on IP_String (set (map snd ?m))"
  proof (rule inj_onI)
    fix x y assume "x \<in> set (map snd ?m)" "y \<in> set (map snd ?m)" "IP_String x = IP_String y"
    moreover from this have "length x = length c0" "length y = length c0"
      using allocInv_values_length [OF inv] by auto
    ultimately show "x = y" using IP_String_inject [of x y] by simp
  qed
  have eq: "map fst (map flipEntry ?m) = map IP_String (map snd ?m)"
    by (simp add: flipEntry_def comp_def)
  have "distinct (map IP_String (map snd ?m))"
    using dv inj by (subst distinct_map) blast
  then have dfk: "distinct (map fst (map flipEntry ?m))"
    by (simp only: eq)
  then have dfk': "distinct (map fst (rev (map flipEntry ?m)))"
    by (simp add: rev_map [symmetric])
  have drk: "distinct (map fst (reverseMaps f))" using inv by (simp add: allocInv_def)
  have "map_of (reverseMaps f) = map_of (rev (map flipEntry ?m))"
    using inv by (simp add: allocInv_def)
  then have "set (reverseMaps f) = set (rev (map flipEntry ?m))"
    using map_of_inject_set [OF drk dfk'] by blast
  then have se: "set (reverseMaps f) = flipEntry ` set ?m" by simp
  have eq2: "map snd (map flipEntry ?m) = map fst ?m" by (simp add: flipEntry_def comp_def)
  have dfv: "distinct (map snd (map flipEntry ?m))" using dk by (simp only: eq2)
  have "distinct (map snd (reverseMaps f))"
  proof -
    have "distinct (reverseMaps f)" using drk by (rule distinct_map [THEN iffD1, THEN conjunct1])
    moreover have "inj_on snd (set (reverseMaps f))"
      unfolding se
    proof (rule inj_onI)
      fix x y
      assume x: "x \<in> flipEntry ` set ?m" and y: "y \<in> flipEntry ` set ?m"
        and e: "snd x = snd y"
      from x obtain p where p: "p \<in> set ?m" "x = flipEntry p" by blast
      from y obtain q where q: "q \<in> set ?m" "y = flipEntry q" by blast
      have "fst p = fst q" using e unfolding p(2) q(2) flipEntry_def by (simp only: snd_conv)
      note pq = p(1) q(1) p(2) q(2) this
      have "inj_on fst (set ?m)" using dk by (simp add: distinct_map)
      then have "p = q" using pq by (auto dest: inj_onD)
      then show "x = y" using pq by simp
    qed
    ultimately show ?thesis by (simp add: distinct_map)
  qed
  then show ?thesis using dk dv drk se by (simp add: mapsBijective_def)
qed

lemma mapsBijective_forward_inj:
  assumes "mapsBijective f" "map_of (mappings f) k1 = Some a1" "map_of (mappings f) k2 = Some a2"
    "k1 \<noteq> k2"
  shows "a1 \<noteq> a2"
proof
  assume "a1 = a2"
  have "(k1, a1) \<in> set (mappings f)" "(k2, a2) \<in> set (mappings f)"
    using assms(2,3) by (auto dest: map_of_SomeD)
  moreover have "inj_on snd (set (mappings f))"
    using assms(1) by (simp add: mapsBijective_def distinct_map)
  ultimately have "(k1, a1) = (k2, a2)"
    using \<open>a1 = a2\<close> inj_onD [of snd "set (mappings f)" "(k1, a1)" "(k2, a2)"] by simp
  then show False using assms(4) by simp
qed

lemma mapsBijective_reverse:
  assumes "mapsBijective f" "map_of (mappings f) k = Some a"
  shows "GetDomainForIP f a = k"
proof -
  have "(k, a) \<in> set (mappings f)" using assms(2) by (rule map_of_SomeD)
  then have "(IP_String a, k) \<in> set (reverseMaps f)"
    using assms(1) by (force simp: mapsBijective_def flipEntry_def)
  moreover have "distinct (map fst (reverseMaps f))" using assms(1) by (simp add: mapsBijective_def)
  ultimately have "map_of (reverseMaps f) (IP_String a) = Some k" by simp
  then show ?thesis by (simp add: GetDomainForIP_def lookupString_def)
qed

text \<open>
  An address of any form that is not the same address (\<^verbatim>\<open>net.IP.Equal\<close>) as one that
  was handed out has no reverse entry.
\<close>

lemma unallocated_reverse_empty:
  assumes inv: "allocInv c0 f"
    and un: "\<forall>a\<in>snd ` set (mappings f). \<not> IP_Equal a b"
  shows "GetDomainForIP f b = []"
proof -
  have "IP_String b \<notin> fst ` set (rev (map flipEntry (mappings f)))"
  proof
    assume "IP_String b \<in> fst ` set (rev (map flipEntry (mappings f)))"
    then obtain k a where ka: "(k, a) \<in> set (mappings f)" "IP_String a = IP_String b"
      by (auto simp: flipEntry_def)
    from ka(2) have "IP_Equal a b" by (rule IP_String_Equal)
    moreover have "a \<in> snd ` set (mappings f)" using ka(1) by force
    ultimately show False using un by blast
  qed
  then have "map_of (rev (map flipEntry (mappings f))) (IP_String b) = None"
    by (metis map_of_eq_None_iff)
  then show ?thesis using inv by (simp add: GetDomainForIP_def lookupString_def allocInv_def)
qed

lemma getFakeIPs_fresh_keys:
  "distinct (map canon ds) \<Longrightarrow>
   canon ` set ds \<inter> fst ` set (mappings f) = {} \<Longrightarrow>
   map fst (mappings (getFakeIPs canon f ds)) = map fst (mappings f) @ map canon ds"
proof (induction ds arbitrary: f)
  case Nil
  show ?case by simp
next
  case (Cons d ds)
  have none: "map_of (mappings f) (canon d) = None"
    using Cons.prems(2) by (auto simp: map_of_eq_None_iff)
  let ?f = "snd (getFakeIP canon f d)"
  have m: "map fst (mappings ?f) = map fst (mappings f) @ [canon d]"
    by (simp add: getFakeIP_new [where canon = canon and d = d, OF none])
  have "canon ` set ds \<inter> fst ` set (mappings ?f) = {}"
  proof -
    have "fst ` set (mappings ?f) = set (map fst (mappings ?f))" by simp
    also have "\<dots> = insert (canon d) (fst ` set (mappings f))" unfolding m by simp
    finally show ?thesis using Cons.prems by auto
  qed
  moreover have "distinct (map canon ds)" using Cons.prems(1) by simp
  ultimately have "map fst (mappings (getFakeIPs canon ?f ds)) = map fst (mappings ?f) @ map canon ds"
    by (rule Cons.IH [rotated])
  then show ?case by (simp add: m)
qed

section \<open>A run over fresh names\<close>

lemma exampleServer_new: "NewFakeDNSServer exampleParseCIDR exampleConfig = Inr exampleServer"
  by (simp add: NewFakeDNSServer_def exampleParseCIDR_def exampleConfig_def exampleServer_def
      incrementIP_def Let_def numeral_eq_Suc)

lemma toLowerRune_digit: "isDigit c \<Longrightarrow> toLowerRune c = c"
  by (simp add: isDigit_def toLowerRune_def Let_def)

lemma asciiToLower_itoa: "asciiToLower (itoa n) = itoa n"
  unfolding asciiToLower_def by (rule map_idI) (simp add: toLowerRune_digit itoa_digits)

text \<open>A final dot after a backslash is escaped: the library appends another dot.\<close>

lemma CanonicalName_escaped_dot:
  "CanonicalName (''a'' @ [backslash, CHR ''.'']) = ''a'' @ [backslash, CHR ''.'', CHR ''.'']"
  "CanonicalName (''a'' @ [backslash, CHR ''.'', CHR ''.'']) = ''a'' @ [backslash, CHR ''.'', CHR ''.'']"
  "CanonicalName (''a'' @ [backslash]) = ''a'' @ [backslash, CHR ''.'']"
  "CanonicalName (''a'' @ [backslash, backslash, CHR ''.'']) = ''a'' @ [backslash, backslash, CHR ''.'']"
  by code_simp+

lemma CanonicalName_fakeName: "CanonicalName (fakeName i) = fakeName i"
proof -
  have "asciiToLower ''.test.'' = ''.test.''" by (simp add: asciiToLower_def toLowerRune_def)
  then have "asciiToLower (fakeName i) = fakeName i"
    using asciiToLower_itoa [of i] by (simp add: fakeName_def asciiToLower_def)
  moreover have "butlast (itoa i @ ''.test.'') = itoa i @ ''.test''"
    by (simp add: butlast_append)
  then have "Fqdn (fakeName i) = fakeName i"
    by (simp add: Fqdn_def IsFqdn_def fakeName_def backslash_def)
  ultimately show ?thesis by (simp add: CanonicalName_def)
qed

lemma fakeName_inject: "fakeName i = fakeName j \<Longrightarrow> i = j"
  by (simp add: fakeName_def itoa_inject)

lemma distinct_fakeNames: "distinct (map fakeName [0..<n])"
  by (simp add: distinct_map inj_on_def fakeName_inject del: upt_Suc)

lemma fresh_run:
  fixes n :: nat
  assumes "mappings S = []" "allocInv c0 S"
  defines "F \<equiv> getFakeIPs CanonicalName S (map fakeName [0..<n])"
  shows "map fst (mappings F) = map fakeName [0..<n]"
    and "map snd (mappings F) = map (nthAddress c0) [0..<n]"
    and "nextIP F = nthAddress c0 n"
    and "length (mappings F) = n"
proof -
  have cn: "map CanonicalName (map fakeName [0..<n]) = map fakeName [0..<n]"
    by (simp add: CanonicalName_fakeName del: upt_Suc)
  have "distinct (map CanonicalName (map fakeName [0..<n]))"
    unfolding cn by (rule distinct_fakeNames)
  then have "map fst (mappings F) = map fst (mappings S) @ map CanonicalName (map fakeName [0..<n])"
    unfolding F_def by (rule getFakeIPs_fresh_keys) (simp add: assms(1))
  then show k: "map fst (mappings F) = map fakeName [0..<n]"
    unfolding cn by (simp add: assms(1))
  from arg_cong [OF k, of length] show l: "length (mappings F) = n" by simp
  have inv: "allocInv c0 F" unfolding F_def using assms(2) by (rule allocInv_run)
  from inv l show "map snd (mappings F) = map (nthAddress c0) [0..<n]"
    by (simp add: allocInv_def)
  from inv l show "nextIP F = nthAddress c0 n" by (simp add: allocInv_def)
qed

lemma fresh_run_first:
  assumes "mappings S = []" "allocInv c0 S" "0 < n"
  shows "map_of (mappings (getFakeIPs CanonicalName S (map fakeName [0..<n]))) (fakeName 0) = Some c0"
proof -
  let ?F = "getFakeIPs CanonicalName S (map fakeName [0..<n])"
  note fr = fresh_run [OF assms(1,2), of n]
  have z: "mappings ?F = zip (map fakeName [0..<n]) (map (nthAddress c0) [0..<n])"
    using zip_map_fst_snd [of "mappings ?F"] unfolding fr(1) fr(2) by simp
  have "map_of (zip (map fakeName [0..<n]) (map (nthAddress c0) [0..<n])) (map fakeName [0..<n] ! 0)
      = Some (map (nthAddress c0) [0..<n] ! 0)"
    using assms(3) distinct_fakeNames [of n] by (intro map_of_zip_nth) (simp_all del: upt_Suc)
  then show ?thesis using assms(3) unfolding z by (simp add: nthAddress_def del: upt_Suc)
qed

lemma fresh_run_next_new:
  assumes "mappings S = []" "allocInv c0 S"
  shows "map_of (mappings (getFakeIPs CanonicalName S (map fakeName [0..<n])))
           (CanonicalName (fakeName n)) = None"
proof -
  let ?F = "getFakeIPs CanonicalName S (map fakeName [0..<n])"
  note fr = fresh_run [OF assms(1,2), of n]
  have "fakeName n \<notin> set (map fakeName [0..<n])"
    by (auto dest: fakeName_inject)
  then have "fakeName n \<notin> fst ` set (mappings ?F)"
    using fr(1) by (metis set_map)
  then show ?thesis by (simp add: CanonicalName_fakeName map_of_eq_None_iff)
qed

lemma exampleServer_inv: "allocInv [198, 18, 0, 1] exampleServer"
  using allocInv_init [OF exampleServer_new] by (simp add: exampleServer_def)

lemma exampleServer_wrap: "nthAddress [198, 18, 0, 1] addressSpace = [198, 18, 0, 1]"
  using nthAddress_wrap [of "[198, 18, 0, 1]"] by (simp add: addressSpace_def)

lemma exampleServer_space: "256 ^ length (NetIP (fakeSubnet exampleServer)) = addressSpace"
  by (simp add: exampleServer_def addressSpace_def)

section \<open>Allocation of synthetic addresses\<close>

text \<open>
  Claim C6.  After \<open>getFakeIP\<close> has been called for a domain, every later call for a
  domain with the same canonical name (whatever other calls came in between) returns
  the same address and leaves the server, and so the mapping count, unchanged.  The
  first call increases the count by one exactly when the canonical name was not yet
  mapped.  The canonicalisation \<open>canon\<close> is arbitrary: the statement holds for
  \<^verbatim>\<open>dns.CanonicalName\<close> on every name.
\<close>

theorem getFakeIP_repeat_same_address:
  assumes "getFakeIP canon f d = (a, f1)" and "canon d' = canon d"
  shows "getFakeIP canon (getFakeIPs canon f1 ds) d' = (a, getFakeIPs canon f1 ds)
       \<and> GetMappingCount (snd (getFakeIP canon (getFakeIPs canon f1 ds) d'))
           = GetMappingCount (getFakeIPs canon f1 ds)
       \<and> GetMappingCount f1 =
           (if canon d \<in> fst ` set (mappings f) then GetMappingCount f
            else Suc (GetMappingCount f))"
proof -
  have "map_of (mappings f1) (canon d) = Some a"
    using assms(1) by (rule getFakeIP_result_mapped)
  then have "map_of (mappings (getFakeIPs canon f1 ds)) (canon d') = Some a"
    unfolding assms(2) by (rule getFakeIPs_persist)
  then have same: "getFakeIP canon (getFakeIPs canon f1 ds) d' = (a, getFakeIPs canon f1 ds)"
    by (rule getFakeIP_existing)
  have "GetMappingCount f1 =
      (if canon d \<in> fst ` set (mappings f) then GetMappingCount f
       else Suc (GetMappingCount f))"
    using length_getFakeIP [of canon f d] unfolding assms(1) by (simp only: snd_conv)
  then show ?thesis using same by (simp only: snd_conv)
qed

theorem getFakeIP_repeat_same_address_witness:
  "getFakeIP CanonicalName exampleServer ''Example.com''
     = ([198, 18, 0, 1], snd (getFakeIP CanonicalName exampleServer ''Example.com''))
   \<and> CanonicalName ''example.COM.'' = CanonicalName ''Example.com''
   \<and> getFakeIP CanonicalName
        (getFakeIPs CanonicalName (snd (getFakeIP CanonicalName exampleServer ''Example.com''))
           [''other.org''])
        ''example.COM.''
       = ([198, 18, 0, 1],
          getFakeIPs CanonicalName (snd (getFakeIP CanonicalName exampleServer ''Example.com''))
            [''other.org''])
   \<and> GetMappingCount (snd (getFakeIP CanonicalName exampleServer ''Example.com'')) = 1
   \<and> GetMappingCount
        (getFakeIPs CanonicalName (snd (getFakeIP CanonicalName exampleServer ''Example.com''))
           [''other.org'']) = 2"
proof -
  let ?f1 = "snd (getFakeIP CanonicalName exampleServer ''Example.com'')"
  have a: "getFakeIP CanonicalName exampleServer ''Example.com'' = ([198, 18, 0, 1], ?f1)"
    by code_simp
  have b: "CanonicalName ''example.COM.'' = CanonicalName ''Example.com''" by code_simp
  have c: "GetMappingCount ?f1 = 1" by code_simp
  have d: "GetMappingCount (getFakeIPs CanonicalName ?f1 [''other.org'']) = 2"
    by code_simp
  from getFakeIP_repeat_same_address [OF a b, of "[''other.org'']"] a b c d
  show ?thesis by blast
qed

text \<open>
  Claim C4, as amended.  In any sequence of \<open>getFakeIP\<close> calls on a new allocator, two
  calls for domains with different canonical names return different addresses, and the
  forward and reverse maps are a bijection, as long as the number of allocated domains
  is at most \<open>256 ^ n\<close>, where \<open>n\<close> is the number of bytes of the block's address (four
  for an IPv4 block, sixteen for an IPv6 block).
\<close>

theorem fake_addresses_distinct_within_address_space:
  assumes new: "NewFakeDNSServer ParseCIDR c = Inr f0"
    and first: "getFakeIP canon (getFakeIPs canon f0 ds) d1 = (a1, f1)"
    and second: "getFakeIP canon (getFakeIPs canon f1 es) d2 = (a2, f2)"
    and ne: "canon d1 \<noteq> canon d2"
    and bound: "GetMappingCount f2 \<le> 256 ^ length (NetIP (fakeSubnet f0))"
  shows "a1 \<noteq> a2 \<and> mapsBijective f2"
proof -
  let ?c0 = "nextIP f0"
  have len: "length ?c0 = length (NetIP (fakeSubnet f0))" using new by (rule init_length)
  have f1: "f1 = snd (getFakeIP canon (getFakeIPs canon f0 ds) d1)" using first by simp
  have f2: "f2 = snd (getFakeIP canon (getFakeIPs canon f1 es) d2)" using second by simp
  have "allocInv ?c0 (getFakeIPs canon f0 ds)" using allocInv_init [OF new] by (rule allocInv_run)
  then have "allocInv ?c0 f1" unfolding f1 by (rule allocInv_step)
  then have "allocInv ?c0 (getFakeIPs canon f1 es)" by (rule allocInv_run)
  then have inv: "allocInv ?c0 f2" unfolding f2 by (rule allocInv_step)
  have bij: "mapsBijective f2"
    using inv bound unfolding len [symmetric] by (rule allocInv_bijective)
  have "map_of (mappings f1) (canon d1) = Some a1"
    using first by (rule getFakeIP_result_mapped)
  then have "map_of (mappings (getFakeIPs canon f1 es)) (canon d1) = Some a1"
    by (rule getFakeIPs_persist)
  then have m1: "map_of (mappings f2) (canon d1) = Some a1"
    unfolding f2 by (rule getFakeIP_persist)
  have m2: "map_of (mappings f2) (canon d2) = Some a2"
    using second by (rule getFakeIP_result_mapped)
  from mapsBijective_forward_inj [OF bij m1 m2 ne] bij show ?thesis by simp
qed

theorem fake_addresses_distinct_within_address_space_witness:
  "NewFakeDNSServer exampleParseCIDR exampleConfig = Inr exampleServer
   \<and> CanonicalName ''Example.com'' \<noteq> CanonicalName ''other.org''
   \<and> getFakeIP CanonicalName (getFakeIPs CanonicalName exampleServer [''a.com'']) ''Example.com''
       = ([198, 18, 0, 2],
          snd (getFakeIP CanonicalName (getFakeIPs CanonicalName exampleServer [''a.com''])
                 ''Example.com''))
   \<and> getFakeIP CanonicalName
         (getFakeIPs CanonicalName
            (snd (getFakeIP CanonicalName (getFakeIPs CanonicalName exampleServer [''a.com''])
                    ''Example.com''))
            [''b.net'', ''EXAMPLE.COM.''])
         ''other.org''
       = ([198, 18, 0, 4],
          getFakeIPs CanonicalName exampleServer
            [''a.com'', ''Example.com'', ''b.net'', ''other.org''])
   \<and> GetMappingCount
        (getFakeIPs CanonicalName exampleServer
           [''a.com'', ''Example.com'', ''b.net'', ''other.org''])
       \<le> 256 ^ length (NetIP (fakeSubnet exampleServer))
   \<and> mapsBijective
        (getFakeIPs CanonicalName exampleServer
           [''a.com'', ''Example.com'', ''b.net'', ''other.org''])"
proof -
  let ?f = "getFakeIPs CanonicalName exampleServer [''a.com'']"
  let ?f1 = "snd (getFakeIP CanonicalName ?f ''Example.com'')"
  let ?f2 = "getFakeIPs CanonicalName exampleServer
               [''a.com'', ''Example.com'', ''b.net'', ''other.org'']"
  have first: "getFakeIP CanonicalName ?f ''Example.com'' = ([198, 18, 0, 2], ?f1)" by code_simp
  have second: "getFakeIP CanonicalName (getFakeIPs CanonicalName ?f1 [''b.net'', ''EXAMPLE.COM.''])
                  ''other.org''
      = ([198, 18, 0, 4], ?f2)" by code_simp
  have ne: "CanonicalName ''Example.com'' \<noteq> CanonicalName ''other.org''" by code_simp
  have "GetMappingCount ?f2 = 4" by code_simp
  then have bound: "GetMappingCount ?f2 \<le> 256 ^ length (NetIP (fakeSubnet exampleServer))"
    unfolding exampleServer_space by (simp add: addressSpace_def)
  from fake_addresses_distinct_within_address_space
         [OF exampleServer_new first second ne bound]
       exampleServer_new first second ne bound
  show ?thesis by blast
qed

text \<open>
  Claim C4 as stated fails once the cursor has gone round the address space: after
  \<open>2 ^ 32\<close> different names have been allocated from \<open>198.18.0.1\<close> on, the cursor is
  \<open>198.18.0.1\<close> again, and the next new name gets the address of the first.
\<close>

theorem fake_addresses_collide_after_wrap:
  "NewFakeDNSServer exampleParseCIDR exampleConfig = Inr exampleServer
   \<and> CanonicalName (fakeName 0) \<noteq> CanonicalName (fakeName addressSpace)
   \<and> fst (getFakeIP CanonicalName
            (getFakeIPs CanonicalName exampleServer (map fakeName [0..<addressSpace]))
            (fakeName 0))
     = fst (getFakeIP CanonicalName
              (snd (getFakeIP CanonicalName
                      (getFakeIPs CanonicalName exampleServer (map fakeName [0..<addressSpace]))
                      (fakeName 0)))
              (fakeName addressSpace))"
proof -
  let ?F = "getFakeIPs CanonicalName exampleServer (map fakeName [0..<addressSpace])"
  let ?c0 = "[198, 18, 0, 1] :: IP"
  have e: "mappings exampleServer = []" by (simp add: exampleServer_def)
  have pos: "0 < addressSpace" by (simp add: addressSpace_def)
  have "map_of (mappings ?F) (CanonicalName (fakeName 0)) = Some ?c0"
    using fresh_run_first [OF e exampleServer_inv pos] by (simp only: CanonicalName_fakeName)
  then have first: "getFakeIP CanonicalName ?F (fakeName 0) = (?c0, ?F)"
    by (rule getFakeIP_existing)
  have "map_of (mappings ?F) (CanonicalName (fakeName addressSpace)) = None"
    by (rule fresh_run_next_new [OF e exampleServer_inv])
  then have "fst (getFakeIP CanonicalName ?F (fakeName addressSpace)) = nextIP ?F"
    by (simp add: getFakeIP_new)
  also have "\<dots> = nthAddress ?c0 addressSpace"
    by (rule fresh_run(3) [OF e exampleServer_inv])
  also have "\<dots> = ?c0" by (rule exampleServer_wrap)
  finally have second: "fst (getFakeIP CanonicalName ?F (fakeName addressSpace)) = ?c0" .
  have ne: "CanonicalName (fakeName 0) \<noteq> CanonicalName (fakeName addressSpace)"
    unfolding CanonicalName_fakeName using fakeName_inject [of 0 addressSpace] pos by auto
  show ?thesis using exampleServer_new ne first second by (simp only: fst_conv snd_conv) blast
qed

text \<open>
  Claim C5, as amended.  In any sequence of calls on a new allocator, \<open>GetDomainForIP\<close>
  of the address that \<open>getFakeIP\<close> returned for a domain is the canonical name of that
  domain, as long as the number of allocated domains is at most \<open>256 ^ n\<close>, where \<open>n\<close> is
  the number of bytes of the block's address; and \<open>GetDomainForIP\<close> of an address that
  was never allocated is the empty string.  The address asked for may have any form:
  it was never allocated when it is not the same address (\<^verbatim>\<open>net.IP.Equal\<close>, which
  identifies an IPv4 address with its sixteen-byte form) as one that was handed out.
\<close>

theorem reverse_lookup_inverts_allocation:
  assumes new: "NewFakeDNSServer ParseCIDR c = Inr f0"
    and call: "getFakeIP canon (getFakeIPs canon f0 ds) d = (a, f1)"
    and later: "f2 = getFakeIPs canon f1 es"
  shows "(GetMappingCount f2 \<le> 256 ^ length (NetIP (fakeSubnet f0))
            \<longrightarrow> GetDomainForIP f2 a = canon d)
       \<and> (\<forall>b. (\<forall>a'\<in>snd ` set (mappings f2). \<not> IP_Equal a' b) \<longrightarrow> GetDomainForIP f2 b = [])"
proof -
  let ?c0 = "nextIP f0"
  have len: "length ?c0 = length (NetIP (fakeSubnet f0))" using new by (rule init_length)
  have f1: "f1 = snd (getFakeIP canon (getFakeIPs canon f0 ds) d)" using call by simp
  have "allocInv ?c0 (getFakeIPs canon f0 ds)" using allocInv_init [OF new] by (rule allocInv_run)
  then have "allocInv ?c0 f1" unfolding f1 by (rule allocInv_step)
  then have inv: "allocInv ?c0 f2" unfolding later by (rule allocInv_run)
  have "map_of (mappings f1) (canon d) = Some a"
    using call by (rule getFakeIP_result_mapped)
  then have m: "map_of (mappings f2) (canon d) = Some a"
    unfolding later by (rule getFakeIPs_persist)
  have "GetDomainForIP f2 a = canon d"
    if "GetMappingCount f2 \<le> 256 ^ length (NetIP (fakeSubnet f0))"
  proof -
    have "mapsBijective f2"
      using inv that unfolding len [symmetric] by (rule allocInv_bijective)
    then show ?thesis using m by (rule mapsBijective_reverse)
  qed
  moreover have "GetDomainForIP f2 b = []"
    if "\<forall>a'\<in>snd ` set (mappings f2). \<not> IP_Equal a' b" for b
    using inv that by (rule unallocated_reverse_empty)
  ultimately show ?thesis by blast
qed

text \<open>
  In the run below the address \<open>198.18.0.2\<close> is handed out and \<open>198.18.0.4\<close> is not; each
  is looked up in its four-byte form and in the sixteen-byte form that
  \<^verbatim>\<open>net.ParseIP\<close> returns.
\<close>

theorem reverse_lookup_inverts_allocation_witness:
  "NewFakeDNSServer exampleParseCIDR exampleConfig = Inr exampleServer
   \<and> getFakeIP CanonicalName (getFakeIPs CanonicalName exampleServer [''a.com'']) ''Example.com''
       = ([198, 18, 0, 2], getFakeIPs CanonicalName exampleServer [''a.com'', ''Example.com''])
   \<and> GetMappingCount (getFakeIPs CanonicalName exampleServer [''a.com'', ''Example.com'', ''b.net''])
       \<le> 256 ^ length (NetIP (fakeSubnet exampleServer))
   \<and> GetDomainForIP (getFakeIPs CanonicalName exampleServer [''a.com'', ''Example.com'', ''b.net''])
        [198, 18, 0, 2] = ''example.com.''
   \<and> GetDomainForIP (getFakeIPs CanonicalName exampleServer [''a.com'', ''Example.com'', ''b.net''])
        (v4InV6Prefix @ [198, 18, 0, 2]) = ''example.com.''
   \<and> GetDomainForIP (getFakeIPs CanonicalName exampleServer [''a.com'', ''Example.com'', ''b.net''])
        [198, 18, 0, 4] = []
   \<and> GetDomainForIP (getFakeIPs CanonicalName exampleServer [''a.com'', ''Example.com'', ''b.net''])
        (v4InV6Prefix @ [198, 18, 0, 4]) = []"
proof -
  let ?f = "getFakeIPs CanonicalName exampleServer [''a.com'']"
  let ?f1 = "getFakeIPs CanonicalName exampleServer [''a.com'', ''Example.com'']"
  let ?f2 = "getFakeIPs CanonicalName exampleServer [''a.com'', ''Example.com'', ''b.net'']"
  have call: "getFakeIP CanonicalName ?f ''Example.com'' = ([198, 18, 0, 2], ?f1)" by code_simp
  have later: "?f2 = getFakeIPs CanonicalName ?f1 [''b.net'']" by simp
  have "GetMappingCount ?f2 = 3" by code_simp
  then have bound: "GetMappingCount ?f2 \<le> 256 ^ length (NetIP (fakeSubnet exampleServer))"
    unfolding exampleServer_space by (simp add: addressSpace_def)
  have cn: "CanonicalName ''Example.com'' = ''example.com.''" by code_simp
  have un4: "\<forall>a'\<in>snd ` set (mappings ?f2). \<not> IP_Equal a' [198, 18, 0, 4]"
    by code_simp
  have un16: "\<forall>a'\<in>snd ` set (mappings ?f2). \<not> IP_Equal a' (v4InV6Prefix @ [198, 18, 0, 4])"
    by code_simp
  have same: "GetDomainForIP ?f2 (v4InV6Prefix @ [198, 18, 0, 2]) = GetDomainForIP ?f2 [198, 18, 0, 2]"
    unfolding GetDomainForIP_def
    by (rule arg_cong [OF IP_Equal_String]) (simp add: IP_Equal_def v4InV6Prefix_def)
  note th = reverse_lookup_inverts_allocation [OF exampleServer_new call later]
  from th bound cn have 1: "GetDomainForIP ?f2 [198, 18, 0, 2] = ''example.com.''" by simp
  from th un4 have 2: "GetDomainForIP ?f2 [198, 18, 0, 4] = []" by blast
  from th un16 have 3: "GetDomainForIP ?f2 (v4InV6Prefix @ [198, 18, 0, 4]) = []" by blast
  from 1 2 3 same exampleServer_new call bound show ?thesis by simp
qed

text \<open>
  Claim C5 as stated fails once the cursor has gone round: the name allocated after
  \<open>2 ^ 32\<close> others gets the first name's address and overwrites its reverse entry, so
  the reverse lookup of the first name's address yields the last name.
\<close>

theorem reverse_lookup_overwritten_after_wrap:
  "NewFakeDNSServer exampleParseCIDR exampleConfig = Inr exampleServer
   \<and> GetDomainForIP
       (snd (getFakeIP CanonicalName
               (getFakeIPs CanonicalName exampleServer (map fakeName [0..<Suc addressSpace]))
               (fakeName 0)))
       (fst (getFakeIP CanonicalName
               (getFakeIPs CanonicalName exampleServer (map fakeName [0..<Suc addressSpace]))
               (fakeName 0)))
     \<noteq> CanonicalName (fakeName 0)"
proof -
  let ?F = "getFakeIPs CanonicalName exampleServer (map fakeName [0..<addressSpace])"
  let ?G = "getFakeIPs CanonicalName exampleServer (map fakeName [0..<Suc addressSpace])"
  let ?c0 = "[198, 18, 0, 1] :: IP"
  let ?last = "fakeName addressSpace"
  have e: "mappings exampleServer = []" by (simp add: exampleServer_def)
  have pos: "0 < addressSpace" by (simp add: addressSpace_def)
  have G: "?G = snd (getFakeIP CanonicalName ?F ?last)"
    by (simp add: getFakeIPs_append)
  have none: "map_of (mappings ?F) (CanonicalName ?last) = None"
    by (rule fresh_run_next_new [OF e exampleServer_inv])
  have nx: "nextIP ?F = ?c0"
    using fresh_run(3) [OF e exampleServer_inv, of addressSpace] exampleServer_wrap by simp
  have "map_of (reverseMaps ?G) (IP_String ?c0) = Some ?last"
    unfolding G getFakeIP_new [where canon = CanonicalName and d = ?last, OF none] nx
    by (simp add: update_conv' CanonicalName_fakeName)
  then have rev: "GetDomainForIP ?G ?c0 = ?last"
    by (simp add: GetDomainForIP_def lookupString_def)
  have "map_of (mappings ?F) (CanonicalName (fakeName 0)) = Some ?c0"
    using fresh_run_first [OF e exampleServer_inv pos] by (simp only: CanonicalName_fakeName)
  then have "map_of (mappings ?G) (CanonicalName (fakeName 0)) = Some ?c0"
    unfolding G by (rule getFakeIP_persist)
  then have first: "getFakeIP CanonicalName ?G (fakeName 0) = (?c0, ?G)"
    by (rule getFakeIP_existing)
  have ne: "?last \<noteq> CanonicalName (fakeName 0)"
    unfolding CanonicalName_fakeName using fakeName_inject [of addressSpace 0] pos by auto
  have "GetDomainForIP (snd (getFakeIP CanonicalName ?G (fakeName 0)))
          (fst (getFakeIP CanonicalName ?G (fakeName 0)))
      \<noteq> CanonicalName (fakeName 0)"
    unfolding first fst_conv snd_conv rev by (rule ne)
  with exampleServer_new show ?thesis by (rule conjI)
qed

section \<open>The resolver's failure replies\<close>

lemma SetRcode_fields:
  "Rcode (SetRcode m req rc) = rc" "Response (SetRcode m req rc)" "Id (SetRcode m req rc) = Id req"
  by (simp_all add: SetRcode_def SetReply_def Let_def split: list.splits)

lemma digit_chars:
  "digit 0 = CHR ''0''" "digit 1 = CHR ''1''" "digit 2 = CHR ''2''" "digit 3 = CHR ''3''"
  "digit 4 = CHR ''4''" "digit 5 = CHR ''5''" "digit 6 = CHR ''6''" "digit 7 = CHR ''7''"
  "digit 8 = CHR ''8''" "digit 9 = CHR ''9''"
  by code_simp+

lemma itoa_5353: "itoa 5353 = ''5353''"
  by (simp add: itoa.simps digit_chars)

lemma itoa_53: "itoa 53 = ''53''"
  by (simp add: itoa.simps digit_chars)

lemma itoa_int_53: "(itoa_int p = ''53'') = (p = 53)"
proof (cases "p < 0")
  case True
  then show ?thesis by (simp add: itoa_int_def)
next
  case False
  have "(itoa (nat p) = itoa 53) = (nat p = 53)" by (auto dest: itoa_inject)
  then show ?thesis using False unfolding itoa_53 by (auto simp: itoa_int_def)
qed

text \<open>The upstream that \<open>NewDNSResolver\<close> builds is one of the two addresses of
  \<^verbatim>\<open>resolveBypass\<close> exactly when the DNS port is 53.\<close>

lemma NewDNSResolver_upstream_port:
  "(torUpstream (NewDNSResolver torCfg bypass) = ''127.0.0.53:53''
    \<or> torUpstream (NewDNSResolver torCfg bypass) = ''127.0.0.1:53'')
   = (DNSPort torCfg = 53)"
  by (simp add: NewDNSResolver_def itoa_int_53)

lemma exampleResolver_upstream: "torUpstream exampleResolver = ''127.0.0.1:5353''"
  by (simp add: exampleResolver_def NewDNSResolver_def itoa_int_def itoa_5353)

lemma handleDNS_anonymizer_failure:
  assumes "Questions req = question # qs"
    and "\<not> shouldBypass r (TrimSuffix (QName question) ''.'')"
    and "cache_get (cache r) now (TrimSuffix (QName question) ''.'') (Qtype question) = None"
    and "Exchange (torUpstream r) req = None"
  shows "handleDNS r Exchange now req =
           Inr \<lparr>written = [SetRcode newMsg req RcodeServerFailure],
                exchanged = [(ToAnonymizer, torUpstream r)], resolver = r\<rparr>"
proof -
  have "handleDNS r Exchange now req
      = resolveTor r Exchange now req (TrimSuffix (QName question) ''.'')"
    unfolding handleDNS_def assms(1) list.case Let_def using assms(2,3) by simp
  also have "\<dots> = Inr \<lparr>written = [SetRcode newMsg req RcodeServerFailure],
                exchanged = [(ToAnonymizer, torUpstream r)], resolver = r\<rparr>"
    unfolding resolveTor_def assms(4) option.case ..
  finally show ?thesis .
qed

lemma handleDNS_bypass_failure:
  assumes "Questions req = question # qs"
    and "shouldBypass r (TrimSuffix (QName question) ''.'')"
    and "Exchange ''127.0.0.53:53'' req = None"
    and "Exchange ''127.0.0.1:53'' req = None"
  shows "handleDNS r Exchange now req =
           Inr \<lparr>written = [SetRcode newMsg req RcodeNameError],
                exchanged = [(ToSystemResolver, ''127.0.0.53:53''),
                             (ToLoopbackResolver, ''127.0.0.1:53'')],
                resolver = r\<rparr>"
proof -
  have "handleDNS r Exchange now req
      = resolveBypass r Exchange req (TrimSuffix (QName question) ''.'')"
    unfolding handleDNS_def assms(1) list.case Let_def using assms(2) by simp
  also have "\<dots> = Inr \<lparr>written = [SetRcode newMsg req RcodeNameError],
                exchanged = [(ToSystemResolver, ''127.0.0.53:53''),
                             (ToLoopbackResolver, ''127.0.0.1:53'')],
                resolver = r\<rparr>"
    unfolding resolveBypass_def assms(3) assms(4) option.case ..
  finally show ?thesis .
qed

lemma TrimSuffix_dot: "TrimSuffix (s @ ''.'') ''.'' = s"
  by (simp add: TrimSuffix_def HasSuffix_def)

text \<open>
  Claim C1.  For a query whose domain is not on the bypass list and has no fresh cache
  entry, if the exchange with the anonymizer's DNS port fails, the handler writes one
  message, the server-failure reply to the request; the only exchange it made is the
  one with the anonymizer's upstream, and the resolver is unchanged.
\<close>

theorem anonymizer_failure_replies_servfail:
  assumes "Questions req = question # qs"
    and "\<not> shouldBypass r (TrimSuffix (QName question) ''.'')"
    and "cache_get (cache r) now (TrimSuffix (QName question) ''.'') (Qtype question) = None"
    and "Exchange (torUpstream r) req = None"
  shows "handleDNS r Exchange now req =
           Inr \<lparr>written = [SetRcode newMsg req RcodeServerFailure],
                exchanged = [(ToAnonymizer, torUpstream r)], resolver = r\<rparr>
         \<and> Rcode (SetRcode newMsg req RcodeServerFailure) = RcodeServerFailure
         \<and> Response (SetRcode newMsg req RcodeServerFailure)
         \<and> Id (SetRcode newMsg req RcodeServerFailure) = Id req"
  using handleDNS_anonymizer_failure [where Exchange = Exchange and r = r, OF assms]
    SetRcode_fields [of newMsg req RcodeServerFailure]
  by (intro conjI)

theorem anonymizer_failure_replies_servfail_witness:
  "Questions (exampleQuery ''example.com.'')
     = [\<lparr>QName = ''example.com.'', Qtype = TypeA, Qclass = ClassINET\<rparr>]
   \<and> \<not> shouldBypass exampleResolver ''example.com''
   \<and> cache_get (cache exampleResolver) 0 ''example.com'' TypeA = None
   \<and> unreachable (torUpstream exampleResolver) (exampleQuery ''example.com.'') = None
   \<and> handleDNS exampleResolver unreachable 0 (exampleQuery ''example.com.'')
       = Inr \<lparr>written = [SetRcode newMsg (exampleQuery ''example.com.'') RcodeServerFailure],
              exchanged = [(ToAnonymizer, ''127.0.0.1:5353'')], resolver = exampleResolver\<rparr>
   \<and> Rcode (SetRcode newMsg (exampleQuery ''example.com.'') RcodeServerFailure) = 2"
proof -
  let ?q = "\<lparr>QName = ''example.com.'', Qtype = TypeA, Qclass = ClassINET\<rparr>"
  have a: "Questions (exampleQuery ''example.com.'') = ?q # []"
    by (simp add: exampleQuery_def newMsg_def)
  have t: "TrimSuffix (QName ?q) ''.'' = ''example.com''"
    using TrimSuffix_dot [of "''example.com''"] by simp
  have b: "\<not> shouldBypass exampleResolver (TrimSuffix (QName ?q) ''.'')"
    unfolding t
    by (simp add: shouldBypass_def exampleResolver_def NewDNSResolver_def matchDomain_def
        HasPrefix_def HasSuffix_def)
  have c: "cache_get (cache exampleResolver) 0 (TrimSuffix (QName ?q) ''.'') (Qtype ?q) = None"
    by (simp add: cache_get_def exampleResolver_def NewDNSResolver_def)
  have d: "unreachable (torUpstream exampleResolver) (exampleQuery ''example.com.'') = None"
    by (simp add: unreachable_def)
  have e: "RcodeServerFailure = 2" by (simp add: RcodeServerFailure_def)
  have q: "Qtype ?q = TypeA" by simp
  note th = anonymizer_failure_replies_servfail
         [where Exchange = unreachable and r = exampleResolver and now = 0, OF a b c d]
  from th have 1: "handleDNS exampleResolver unreachable 0 (exampleQuery ''example.com.'')
       = Inr \<lparr>written = [SetRcode newMsg (exampleQuery ''example.com.'') RcodeServerFailure],
              exchanged = [(ToAnonymizer, ''127.0.0.1:5353'')], resolver = exampleResolver\<rparr>"
    unfolding exampleResolver_upstream by (rule conjunct1)
  from th have 2: "Rcode (SetRcode newMsg (exampleQuery ''example.com.'') RcodeServerFailure) = 2"
    unfolding e by blast
  from a b c d 1 2 show ?thesis unfolding t q by (intro conjI) simp_all
qed

text \<open>
  Claim C3, as amended.  For a query whose domain is on the bypass list, if the
  exchange with the system resolver at \<open>127.0.0.53:53\<close> fails and the retry with the
  loopback resolver at \<open>127.0.0.1:53\<close> fails too, the handler writes one message, the
  name-error reply to the request, and the resolver is unchanged.  The exchanges it
  made are these two, so the query went to the address of the anonymizer's resolver
  exactly when that address is one of the two; for a resolver whose upstream is the
  one that \<open>NewDNSResolver\<close> builds, this is exactly when the anonymizer's DNS port is
  configured as 53.
\<close>

theorem bypass_failure_replies_nxdomain:
  assumes "Questions req = question # qs"
    and "shouldBypass r (TrimSuffix (QName question) ''.'')"
    and "Exchange ''127.0.0.53:53'' req = None"
    and "Exchange ''127.0.0.1:53'' req = None"
  shows "handleDNS r Exchange now req =
           Inr \<lparr>written = [SetRcode newMsg req RcodeNameError],
                exchanged = [(ToSystemResolver, ''127.0.0.53:53''),
                             (ToLoopbackResolver, ''127.0.0.1:53'')],
                resolver = r\<rparr>
         \<and> (\<exists>out. handleDNS r Exchange now req = Inr out
                  \<and> snd ` set (exchanged out) = {''127.0.0.53:53'', ''127.0.0.1:53''}
                  \<and> (torUpstream r \<in> snd ` set (exchanged out))
                      = (torUpstream r = ''127.0.0.53:53'' \<or> torUpstream r = ''127.0.0.1:53'')
                  \<and> (\<forall>torCfg bypass.
                        torUpstream r = torUpstream (NewDNSResolver torCfg bypass) \<longrightarrow>
                        (torUpstream r \<in> snd ` set (exchanged out)) = (DNSPort torCfg = 53)))
         \<and> Rcode (SetRcode newMsg req RcodeNameError) = RcodeNameError
         \<and> Response (SetRcode newMsg req RcodeNameError)
         \<and> Id (SetRcode newMsg req RcodeNameError) = Id req"
proof -
  let ?out = "\<lparr>written = [SetRcode newMsg req RcodeNameError],
                exchanged = [(ToSystemResolver, ''127.0.0.53:53''),
                             (ToLoopbackResolver, ''127.0.0.1:53'')],
                resolver = r\<rparr>"
  note h = handleDNS_bypass_failure [where Exchange = Exchange and r = r and now = now, OF assms]
  have s: "snd ` set (exchanged ?out) = {''127.0.0.53:53'', ''127.0.0.1:53''}" by simp
  have a: "(x \<in> snd ` set (exchanged ?out)) = (x = ''127.0.0.53:53'' \<or> x = ''127.0.0.1:53'')"
    for x
    unfolding s by blast
  have b: "(torUpstream r \<in> snd ` set (exchanged ?out)) = (DNSPort torCfg = 53)"
    if u: "torUpstream r = torUpstream (NewDNSResolver torCfg bypass)" for torCfg bypass
  proof -
    have "(torUpstream r \<in> snd ` set (exchanged ?out))
        = (torUpstream (NewDNSResolver torCfg bypass) = ''127.0.0.53:53''
           \<or> torUpstream (NewDNSResolver torCfg bypass) = ''127.0.0.1:53'')"
      unfolding u by (rule a)
    also have "\<dots> = (DNSPort torCfg = 53)" by (rule NewDNSResolver_upstream_port)
    finally show ?thesis .
  qed
  have "\<exists>out. handleDNS r Exchange now req = Inr out
            \<and> snd ` set (exchanged out) = {''127.0.0.53:53'', ''127.0.0.1:53''}
            \<and> (torUpstream r \<in> snd ` set (exchanged out))
                = (torUpstream r = ''127.0.0.53:53'' \<or> torUpstream r = ''127.0.0.1:53'')
            \<and> (\<forall>torCfg bypass.
                  torUpstream r = torUpstream (NewDNSResolver torCfg bypass) \<longrightarrow>
                  (torUpstream r \<in> snd ` set (exchanged out)) = (DNSPort torCfg = 53))"
    unfolding h using s a b by (intro exI [of _ ?out] conjI allI impI) (rule refl)
  with h SetRcode_fields [of newMsg req RcodeNameError] show ?thesis by (intro conjI)
qed

theorem bypass_failure_replies_nxdomain_witness:
  "Questions (exampleQuery ''printer.local.'')
     = [\<lparr>QName = ''printer.local.'', Qtype = TypeA, Qclass = ClassINET\<rparr>]
   \<and> shouldBypass exampleResolver ''printer.local''
   \<and> unreachable ''127.0.0.53:53'' (exampleQuery ''printer.local.'') = None
   \<and> unreachable ''127.0.0.1:53'' (exampleQuery ''printer.local.'') = None
   \<and> torUpstream exampleResolver = torUpstream (NewDNSResolver \<lparr>DNSPort = 5353\<rparr> None)
   \<and> handleDNS exampleResolver unreachable 0 (exampleQuery ''printer.local.'')
       = Inr \<lparr>written = [SetRcode newMsg (exampleQuery ''printer.local.'') RcodeNameError],
              exchanged = [(ToSystemResolver, ''127.0.0.53:53''),
                           (ToLoopbackResolver, ''127.0.0.1:53'')],
              resolver = exampleResolver\<rparr>
   \<and> torUpstream exampleResolver
       \<notin> snd ` set [(ToSystemResolver, ''127.0.0.53:53''), (ToLoopbackResolver, ''127.0.0.1:53'')]
   \<and> Rcode (SetRcode newMsg (exampleQuery ''printer.local.'') RcodeNameError) = 3"
proof -
  let ?q = "\<lparr>QName = ''printer.local.'', Qtype = TypeA, Qclass = ClassINET\<rparr>"
  let ?ex = "[(ToSystemResolver, ''127.0.0.53:53''), (ToLoopbackResolver, ''127.0.0.1:53'')]"
  have a: "Questions (exampleQuery ''printer.local.'') = ?q # []"
    by (simp add: exampleQuery_def newMsg_def)
  have t: "TrimSuffix (QName ?q) ''.'' = ''printer.local''"
    using TrimSuffix_dot [of "''printer.local''"] by simp
  have b: "shouldBypass exampleResolver (TrimSuffix (QName ?q) ''.'')"
    unfolding t
    by (simp add: shouldBypass_def exampleResolver_def NewDNSResolver_def matchDomain_def
        HasPrefix_def HasSuffix_def)
  have c: "unreachable ''127.0.0.53:53'' (exampleQuery ''printer.local.'') = None"
    by (simp add: unreachable_def)
  have d: "unreachable ''127.0.0.1:53'' (exampleQuery ''printer.local.'') = None"
    by (simp add: unreachable_def)
  have e: "RcodeNameError = 3" by (simp add: RcodeNameError_def)
  have u: "torUpstream exampleResolver = torUpstream (NewDNSResolver \<lparr>DNSPort = 5353\<rparr> None)"
    by (simp add: exampleResolver_def NewDNSResolver_def)
  note th = bypass_failure_replies_nxdomain
         [where Exchange = unreachable and r = exampleResolver and now = 0, OF a b c d]
  from th have 1: "handleDNS exampleResolver unreachable 0 (exampleQuery ''printer.local.'')
       = Inr \<lparr>written = [SetRcode newMsg (exampleQuery ''printer.local.'') RcodeNameError],
              exchanged = ?ex, resolver = exampleResolver\<rparr>"
    by (rule conjunct1)
  from th obtain out where o: "handleDNS exampleResolver unreachable 0 (exampleQuery ''printer.local.'')
         = Inr out"
      "\<forall>torCfg bypass.
         torUpstream exampleResolver = torUpstream (NewDNSResolver torCfg bypass) \<longrightarrow>
         (torUpstream exampleResolver \<in> snd ` set (exchanged out)) = (DNSPort torCfg = 53)"
    by blast
  from o(1) have ex: "exchanged out = ?ex" unfolding 1 by auto
  from o(2) u have "(torUpstream exampleResolver \<in> snd ` set (exchanged out))
      = (DNSPort \<lparr>DNSPort = 5353\<rparr> = 53)" by blast
  then have 3: "torUpstream exampleResolver \<notin> snd ` set ?ex" unfolding ex by simp
  from th have 2: "Rcode (SetRcode newMsg (exampleQuery ''printer.local.'') RcodeNameError) = 3"
    unfolding e by blast
  from a b c d u 1 2 3 show ?thesis unfolding t by (intro conjI) simp_all
qed

text \<open>
  Claim C3 as stated fails when the anonymizer's DNS port is configured as 53: the
  address of the anonymizer's resolver is then \<open>127.0.0.1:53\<close>, the address of the
  loopback retry, and a bypass query whose two local exchanges fail has been sent to
  it.
\<close>

theorem bypass_retry_reaches_anonymizer_on_port_53:
  "Questions (exampleQuery ''printer.local.'')
     = [\<lparr>QName = ''printer.local.'', Qtype = TypeA, Qclass = ClassINET\<rparr>]
   \<and> shouldBypass exampleResolver53 ''printer.local''
   \<and> unreachable ''127.0.0.53:53'' (exampleQuery ''printer.local.'') = None
   \<and> unreachable ''127.0.0.1:53'' (exampleQuery ''printer.local.'') = None
   \<and> (\<exists>out. handleDNS exampleResolver53 unreachable 0 (exampleQuery ''printer.local.'') = Inr out
            \<and> torUpstream exampleResolver53 \<in> snd ` set (exchanged out))"
proof -
  let ?q = "\<lparr>QName = ''printer.local.'', Qtype = TypeA, Qclass = ClassINET\<rparr>"
  let ?ex = "[(ToSystemResolver, ''127.0.0.53:53''), (ToLoopbackResolver, ''127.0.0.1:53'')]"
  have a: "Questions (exampleQuery ''printer.local.'') = ?q # []"
    by (simp add: exampleQuery_def newMsg_def)
  have t: "TrimSuffix (QName ?q) ''.'' = ''printer.local''"
    using TrimSuffix_dot [of "''printer.local''"] by simp
  have b: "shouldBypass exampleResolver53 (TrimSuffix (QName ?q) ''.'')"
    unfolding t
    by (simp add: shouldBypass_def exampleResolver53_def NewDNSResolver_def matchDomain_def
        HasPrefix_def HasSuffix_def)
  have c: "unreachable ''127.0.0.53:53'' (exampleQuery ''printer.local.'') = None"
    by (simp add: unreachable_def)
  have d: "unreachable ''127.0.0.1:53'' (exampleQuery ''printer.local.'') = None"
    by (simp add: unreachable_def)
  have u: "torUpstream exampleResolver53 = ''127.0.0.1:53''"
    by (simp add: exampleResolver53_def NewDNSResolver_def itoa_int_def itoa_53)
  have h: "handleDNS exampleResolver53 unreachable 0 (exampleQuery ''printer.local.'')
       = Inr \<lparr>written = [SetRcode newMsg (exampleQuery ''printer.local.'') RcodeNameError],
              exchanged = ?ex, resolver = exampleResolver53\<rparr>"
    by (rule handleDNS_bypass_failure
          [where Exchange = unreachable and r = exampleResolver53 and now = 0, OF a b c d])
  have "\<exists>out. handleDNS exampleResolver53 unreachable 0 (exampleQuery ''printer.local.'') = Inr out
            \<and> torUpstream exampleResolver53 \<in> snd ` set (exchanged out)"
    unfolding h u by (intro exI conjI, rule refl) simp
  with a b c d show ?thesis unfolding t by (intro conjI) simp_all
qed

section \<open>Messages without a question\<close>

lemma fake_handleDNS_questionless:
  "Questions req = [] \<Longrightarrow>
   fake_handleDNS canon f req = ((SetReply newMsg req)\<lparr>Authoritative := True\<rparr>, f)"
  by (simp add: fake_handleDNS_def)

text \<open>
  Claim C9, at the input where the code departs from it.  For a message without a
  question the resolver's handler writes the server-failure reply, but the FakeDNS
  handler writes a reply with response code success and no answer.
\<close>

theorem fake_handler_answers_questionless_with_success:
  assumes "Questions req = []"
  shows "Rcode (fst (fake_handleDNS canon f req)) = RcodeSuccess
       \<and> Answer (fst (fake_handleDNS canon f req)) = []
       \<and> Response (fst (fake_handleDNS canon f req))
       \<and> snd (fake_handleDNS canon f req) = f
       \<and> handleDNS r Exchange now req =
           Inr \<lparr>written = [HandleFailed req], exchanged = [], resolver = r\<rparr>
       \<and> Rcode (HandleFailed req) = RcodeServerFailure"
  using assms
  by (simp add: fake_handleDNS_questionless handleDNS_def HandleFailed_def SetRcode_fields
      SetReply_def newMsg_def Let_def)

theorem fake_handler_answers_questionless_with_success_witness:
  "Questions questionlessQuery = []
   \<and> Rcode (fst (fake_handleDNS CanonicalName exampleServer questionlessQuery)) = 0
   \<and> Answer (fst (fake_handleDNS CanonicalName exampleServer questionlessQuery)) = []
   \<and> Rcode (HandleFailed questionlessQuery) = 2"
proof -
  have a: "Questions questionlessQuery = []" by (simp add: questionlessQuery_def newMsg_def)
  from fake_handler_answers_questionless_with_success [OF a, of CanonicalName exampleServer] a
  show ?thesis by (simp add: RcodeSuccess_def RcodeServerFailure_def)
qed

section \<open>The country matcher without a database\<close>

text \<open>
  Claim C8, at the input where the code departs from it.  When no database is found
  the constructor returns the nil matcher without an error.  On the nil matcher
  \<open>Match\<close>, \<open>GetCountry\<close> and \<open>Close\<close> return no match, the empty code and no
  error, but \<open>AddCountry\<close> and \<open>RemoveCountry\<close> panic.
\<close>

theorem nil_matcher_mutations_panic:
  assumes "list_all (\<lambda>p. Open p = None) defaultPaths"
  shows "NewGeoIPMatcher Open [] cs = Inr None
       \<and> Match None ip = Inr ([], False)
       \<and> GetCountry None ip = Inr []
       \<and> Close None = Inr None
       \<and> AddCountry None code = Inl NilPointerDereference
       \<and> RemoveCountry None code = Inl NilPointerDereference"
proof -
  have "find (\<lambda>p. Open p \<noteq> None) defaultPaths = None"
    using assms by (simp add: find_None_iff list_all_iff)
  then show ?thesis
    by (simp add: NewGeoIPMatcher_def Match_def GetCountry_def Close_def AddCountry_def
        RemoveCountry_def)
qed

theorem nil_matcher_mutations_panic_witness:
  "list_all (\<lambda>p. noDatabase p = None) defaultPaths
   \<and> NewGeoIPMatcher noDatabase [] [''US'', ''DE''] = Inr None
   \<and> AddCountry None ''US'' = Inl NilPointerDereference
   \<and> RemoveCountry None ''US'' = Inl NilPointerDereference"
proof -
  have a: "list_all (\<lambda>p. noDatabase p = None) defaultPaths"
    by (simp add: noDatabase_def defaultPaths_def)
  from nil_matcher_mutations_panic [OF a] a show ?thesis by blast
qed

end
